theory Spec2Isabelle
  imports Complex_Main "HOL-Library.Multiset"
begin

section \<open>Decision tree with Gini split search (hw5code.py)\<close>

text \<open>
  The development embeds \<^verbatim>\<open>find_best_split\<close> and the class \<^verbatim>\<open>DecisionTree\<close>
  of \<^verbatim>\<open>hw5code.py\<close>.

  Numbers: feature values, thresholds and Gini values are exact rationals (\<open>rat\<close>);
  labels are Python integers (\<open>int\<close>). The rounding of binary64 arithmetic is not part
  of the model, which is therefore exact for integer-valued data of moderate size and for
  the rank encoding of categorical features.

  Arrays: a numpy vector is a list, a numpy matrix is the list of its rows (which have
  one length in numpy; the theorems that need it assume it). The entries of a matrix are
  numbers, also in a categorical column, where they are the codes of the categories; the
  functions of the category encoding are polymorphic in the type of the categories.

  Exceptions are values of the type \<open>error\<close>; a function that can raise returns
  \<open>error + 'a\<close>. Dictionaries are association lists in insertion order.
\<close>

subsection \<open>Exceptions\<close>

datatype error =
    IndexError          \<comment> \<open>index out of bounds, boolean index of the wrong length\<close>
  | ValueError_argmax   \<comment> \<open>\<^verbatim>\<open>np.argmax\<close> of an empty sequence\<close>
  | ValueError_feature  \<comment> \<open>the two \<^verbatim>\<open>raise ValueError\<close> on a feature type\<close>
  | KeyError            \<comment> \<open>a key missing in a node dictionary\<close>

subsection \<open>The numpy and collections operations that the code uses\<close>

text \<open>\<^verbatim>\<open>a[mask]\<close> with a boolean mask: the entries of \<open>a\<close> where the mask holds.\<close>

definition bool_index :: "'a list \<Rightarrow> bool list \<Rightarrow> 'a list" where
  "bool_index a msk = map fst (filter snd (zip a msk))"

text \<open>\<^verbatim>\<open>np.cumsum\<close>: running sums.\<close>

fun cumsum_from :: "int \<Rightarrow> int list \<Rightarrow> int list" where
  "cumsum_from acc [] = []"
| "cumsum_from acc (x # xs) = (acc + x) # cumsum_from (acc + x) xs"

definition cumsum :: "int list \<Rightarrow> int list" where
  "cumsum xs = cumsum_from 0 xs"

text \<open>\<^verbatim>\<open>np.argmax\<close> of a non-empty vector: the first index of a maximal entry.\<close>

fun argmax_from :: "rat \<Rightarrow> nat \<Rightarrow> nat \<Rightarrow> rat list \<Rightarrow> nat" where
  "argmax_from best ibest i [] = ibest"
| "argmax_from best ibest i (x # xs) =
     (if best < x then argmax_from x i (Suc i) xs else argmax_from best ibest (Suc i) xs)"

definition argmax :: "rat list \<Rightarrow> error + nat" where
  "argmax xs = (case xs of [] \<Rightarrow> Inl ValueError_argmax | x # r \<Rightarrow> Inr (argmax_from x 0 1 r))"

text \<open>
  \<^verbatim>\<open>np.argsort\<close> followed by indexing both vectors with the permutation: the pairs
  (feature value, label) in ascending order of the feature value. The order among equal
  feature values is taken stable here; numpy's default sort leaves it open, and the result
  of \<^verbatim>\<open>find_best_split\<close> does not depend on it (lemma \<open>find_best_split_any_argsort\<close>).
  Indexing \<^verbatim>\<open>target_vector\<close> by the permutation raises when the target vector is shorter
  than the feature vector, and uses its first entries when it is longer.
\<close>

definition argsort_pairs :: "rat list \<Rightarrow> int list \<Rightarrow> (rat \<times> int) list" where
  "argsort_pairs feature_vector target_vector = sort_key fst (zip feature_vector target_vector)"

subsection \<open>\<^verbatim>\<open>find_best_split\<close>\<close>

text \<open>Lines 32 and 33: the mask of value changes and the midpoints of neighbours.\<close>

definition change_mask :: "rat list \<Rightarrow> bool list" where
  "change_mask feat_sort = map2 (\<lambda>a b. a \<noteq> b) (tl feat_sort) (butlast feat_sort)"

definition midpoints :: "rat list \<Rightarrow> rat list" where
  "midpoints feat_sort = map2 (\<lambda>a b. (a + b) / 2) (tl feat_sort) (butlast feat_sort)"

text \<open>Lines 35 to 46: the criterion at every split position \<open>1, \<dots>, R - 1\<close>.\<close>

definition gini_all :: "int list \<Rightarrow> rat list" where
  "gini_all target_sort =
    (let R = length target_sort;
         R_l_size = [1..<R];
         R_l_1 = cumsum target_sort;
         R_l_p1 = map2 (\<lambda>c n. rat_of_int c / rat_of_nat n) (butlast R_l_1) R_l_size;
         R_l_p0 = map (\<lambda>p. 1 - p) R_l_p1;
         R_r_1 = map (\<lambda>c. last R_l_1 - c) (butlast R_l_1);
         R_r_p1 = map2 (\<lambda>c n. rat_of_int c / rat_of_nat (R - n)) R_r_1 R_l_size;
         R_r_p0 = map (\<lambda>p. 1 - p) R_r_p1
     in map2 (+)
          (map2 (*) (map (\<lambda>n. rat_of_nat n / rat_of_nat R) R_l_size)
                    (map2 (\<lambda>p0 p1. p0\<^sup>2 + p1\<^sup>2 - 1) R_l_p0 R_l_p1))
          (map2 (*) (map (\<lambda>n. rat_of_nat (R - n) / rat_of_nat R) R_l_size)
                    (map2 (\<lambda>p0 p1. p0\<^sup>2 + p1\<^sup>2 - 1) R_r_p0 R_r_p1)))"

text \<open>
  The function on the sorted pairs, and the function itself. \<^verbatim>\<open>R_l_1[-1]\<close> raises on
  an empty vector, \<^verbatim>\<open>np.argmax\<close> raises when no threshold is left.
\<close>

definition find_best_split_sorted ::
  "(rat \<times> int) list \<Rightarrow> error + (rat list \<times> rat list \<times> rat \<times> rat)" where
  "find_best_split_sorted ps =
    (let feat_sort = map fst ps;
         target_sort = map snd ps;
         msk = change_mask feat_sort;
         threshold_vec = bool_index (midpoints feat_sort) msk
     in if target_sort = [] then Inl IndexError
        else
          (let gini_vec = bool_index (gini_all target_sort) msk
           in case argmax gini_vec of
                Inl e \<Rightarrow> Inl e
              | Inr ind_best \<Rightarrow>
                  Inr (threshold_vec, gini_vec, threshold_vec ! ind_best, gini_vec ! ind_best)))"

definition find_best_split ::
  "rat list \<Rightarrow> int list \<Rightarrow> error + (rat list \<times> rat list \<times> rat \<times> rat)" where
  "find_best_split feature_vector target_vector =
    (if length target_vector < length feature_vector then Inl IndexError
     else find_best_split_sorted (argsort_pairs feature_vector target_vector))"

subsection \<open>\<^verbatim>\<open>collections.Counter\<close>\<close>

text \<open>
  A \<^verbatim>\<open>Counter\<close> is a dictionary, and a dictionary iterates in the order in which its
  keys were inserted: it is an association list with the keys in the order of their first
  occurrence.
\<close>

fun counter_add :: "'a \<Rightarrow> ('a \<times> nat) list \<Rightarrow> ('a \<times> nat) list" where
  "counter_add x [] = [(x, 1)]"
| "counter_add x (kc # d) =
     (if fst kc = x then (fst kc, Suc (snd kc)) # d else kc # counter_add x d)"

definition Counter :: "'a list \<Rightarrow> ('a \<times> nat) list" where
  "Counter xs = foldl (\<lambda>d x. counter_add x d) [] xs"

text \<open>
  \<^verbatim>\<open>Counter(xs).most_common(1)[0][0]\<close>: \<^verbatim>\<open>most_common(1)\<close> is \<^verbatim>\<open>max\<close> over the
  items by count, which keeps the first maximal item; on an empty counter the list is
  empty and \<^verbatim>\<open>[0]\<close> raises.
\<close>

fun max_first :: "('a \<times> nat) \<Rightarrow> ('a \<times> nat) list \<Rightarrow> ('a \<times> nat)" where
  "max_first best [] = best"
| "max_first best (kc # d) = (if snd best < snd kc then max_first kc d else max_first best d)"

definition most_common_1 :: "'a list \<Rightarrow> error + 'a" where
  "most_common_1 xs =
     (case Counter xs of [] \<Rightarrow> Inl IndexError | kc # d \<Rightarrow> Inr (fst (max_first kc d)))"

subsection \<open>The category encoding (lines 87 to 102)\<close>

text \<open>\<^verbatim>\<open>d[k]\<close> for a key that is present.\<close>

definition dict_get :: "('k \<times> 'v) list \<Rightarrow> 'k \<Rightarrow> 'v" where
  "dict_get d k = the (map_of d k)"

definition category_ratio :: "'a list \<Rightarrow> int list \<Rightarrow> ('a \<times> rat) list" where
  "category_ratio column sub_y =
    (let counts = Counter column;
         clicks = Counter (bool_index column (map (\<lambda>v. v = 1) sub_y))
     in map (\<lambda>(key, current_count).
               (key, rat_of_nat (case map_of clicks key of Some current_click \<Rightarrow> current_click
                                 | None \<Rightarrow> 0) / rat_of_nat current_count))
            counts)"

definition categories_map_of :: "'a list \<Rightarrow> int list \<Rightarrow> ('a \<times> nat) list" where
  "categories_map_of column sub_y =
    (let ratio = category_ratio column sub_y;
         sorted_categories = sort_key (\<lambda>k. dict_get ratio k) (map fst ratio)
     in zip sorted_categories [0..<length sorted_categories])"

definition encode :: "('a \<times> nat) list \<Rightarrow> 'a list \<Rightarrow> rat list" where
  "encode categories_map column = map (\<lambda>x. rat_of_nat (dict_get categories_map x)) column"

subsection \<open>The tree and the model\<close>

text \<open>
  A node dictionary is either terminal (with its class) or nonterminal (with the feature,
  the split value and the two children). The split value is the number stored under
  \<^verbatim>\<open>threshold\<close> or the list stored under \<^verbatim>\<open>categories_split\<close>.
\<close>

datatype split_value = Threshold rat | Categories "rat list"

datatype node = Terminal int | Nonterminal nat split_value node node

record DecisionTree =
  tree :: "node option"
  feature_types :: "string list"
  max_depth :: "int option"
  min_samples_split :: int
  min_samples_leaf :: "int option"
  depth :: nat

definition DecisionTree_init ::
  "string list \<Rightarrow> int option \<Rightarrow> int \<Rightarrow> int option \<Rightarrow> error + DecisionTree" where
  "DecisionTree_init ftypes mdepth msplit mleaf =
    (if list_ex (\<lambda>x. x \<noteq> ''real'' \<and> x \<noteq> ''categorical'') ftypes then Inl ValueError_feature
     else Inr \<lparr>tree = None, feature_types = ftypes, max_depth = mdepth,
               min_samples_split = msplit, min_samples_leaf = mleaf, depth = 0\<rparr>)"

subsection \<open>The feature scan of \<^verbatim>\<open>_fit_node\<close> (lines 79 to 121)\<close>

text \<open>\<^verbatim>\<open>sub_X[:, feature]\<close> and \<^verbatim>\<open>sub_X.shape[1]\<close>; a matrix without rows has no columns here.\<close>

definition column :: "rat list list \<Rightarrow> nat \<Rightarrow> rat list" where
  "column sub_X feature = map (\<lambda>row. row ! feature) sub_X"

definition shape1 :: "rat list list \<Rightarrow> nat" where
  "shape1 sub_X = (case sub_X of [] \<Rightarrow> 0 | row # _ \<Rightarrow> length row)"

text \<open>
  Lines 84 to 104: the feature vector and the category map of one feature. The boolean
  index \<^verbatim>\<open>sub_X[sub_y == 1, feature]\<close> raises when the lengths differ.
\<close>

definition feature_vector_of ::
  "string \<Rightarrow> rat list list \<Rightarrow> int list \<Rightarrow> nat \<Rightarrow> error + (rat list \<times> (rat \<times> nat) list)" where
  "feature_vector_of feature_type sub_X sub_y feature =
    (if feature_type = ''real'' then Inr (column sub_X feature, [])
     else if feature_type = ''categorical'' then
       (if length sub_y \<noteq> length sub_X then Inl IndexError
        else
          (let categories_map = categories_map_of (column sub_X feature) sub_y
           in Inr (encode categories_map (column sub_X feature), categories_map)))
     else Inl ValueError_feature)"

text \<open>Lines 115 to 121: what the node will store for the split.\<close>

definition threshold_best_of ::
  "string \<Rightarrow> rat \<Rightarrow> (rat \<times> nat) list \<Rightarrow> error + split_value" where
  "threshold_best_of feature_type threshold categories_map =
    (if feature_type = ''real'' then Inr (Threshold threshold)
     else if feature_type = ''categorical'' then
       Inr (Categories (map fst (filter (\<lambda>x. rat_of_nat (snd x) < threshold) categories_map)))
     else Inl ValueError_feature)"

text \<open>
  The four variables \<^verbatim>\<open>feature_best\<close>, \<^verbatim>\<open>threshold_best\<close>, \<^verbatim>\<open>gini_best\<close> and
  \<^verbatim>\<open>split\<close> are \<^verbatim>\<open>None\<close> together or set together.
\<close>

type_synonym best = "(nat \<times> split_value \<times> rat \<times> bool list) option"

definition scan_feature ::
  "DecisionTree \<Rightarrow> rat list list \<Rightarrow> int list \<Rightarrow> nat \<Rightarrow> best \<Rightarrow> error + best" where
  "scan_feature self sub_X sub_y feature best =
    (if length (feature_types self) \<le> feature then Inl IndexError
     else
       (let feature_type = feature_types self ! feature
        in case feature_vector_of feature_type sub_X sub_y feature of
             Inl e \<Rightarrow> Inl e
           | Inr (feature_vector, categories_map) \<Rightarrow>
               if feature_vector = [] then Inl IndexError
               else if list_all (\<lambda>v. v = feature_vector ! 0) feature_vector then Inr best
               else
                 (case find_best_split feature_vector sub_y of
                    Inl e \<Rightarrow> Inl e
                  | Inr (_, _, threshold, gini) \<Rightarrow>
                      if (case best of None \<Rightarrow> True
                          | Some (_, _, gini_best, _) \<Rightarrow> gini_best < gini)
                      then
                        (case threshold_best_of feature_type threshold categories_map of
                           Inl e \<Rightarrow> Inl e
                         | Inr threshold_best \<Rightarrow>
                             Inr (Some (feature, threshold_best, gini,
                                        map (\<lambda>v. v < threshold) feature_vector)))
                      else Inr best)))"

fun scan_features ::
  "DecisionTree \<Rightarrow> rat list list \<Rightarrow> int list \<Rightarrow> nat list \<Rightarrow> best \<Rightarrow> error + best" where
  "scan_features self sub_X sub_y [] best = Inr best"
| "scan_features self sub_X sub_y (feature # features) best =
     (case scan_feature self sub_X sub_y feature best of
        Inl e \<Rightarrow> Inl e
      | Inr best' \<Rightarrow> scan_features self sub_X sub_y features best')"

subsection \<open>Every threshold separates the feature vector\<close>

text \<open>
  The facts below are what the termination of \<^verbatim>\<open>_fit_node\<close> rests on: a threshold
  returned by \<^verbatim>\<open>find_best_split\<close> lies strictly between two values of the feature
  vector, so the split chosen by the feature scan has an entry on each side.
\<close>

lemma length_change_mask [simp]: "length (change_mask fs) = length fs - 1"
  by (simp add: change_mask_def)

lemma length_midpoints [simp]: "length (midpoints fs) = length fs - 1"
  by (simp add: midpoints_def)

lemma nth_change_mask: "Suc i < length fs \<Longrightarrow> change_mask fs ! i = (fs ! Suc i \<noteq> fs ! i)"
  by (simp add: change_mask_def nth_tl nth_butlast)

lemma nth_midpoints: "Suc i < length fs \<Longrightarrow> midpoints fs ! i = (fs ! Suc i + fs ! i) / 2"
  by (simp add: midpoints_def nth_tl nth_butlast)

lemma length_cumsum_from [simp]: "length (cumsum_from acc xs) = length xs"
  by (induction xs arbitrary: acc) auto

lemma length_cumsum [simp]: "length (cumsum xs) = length xs"
  by (simp add: cumsum_def)

lemma length_gini_all [simp]: "length (gini_all ts) = length ts - 1"
  by (simp add: gini_all_def Let_def)

lemma bool_index_snoc:
  "length a = length m \<Longrightarrow> bool_index (a @ [x]) (m @ [b]) = bool_index a m @ (if b then [x] else [])"
  by (simp add: bool_index_def)

lemma bool_index_eq_nths:
  "length a = length m \<Longrightarrow> bool_index a m = map (nth a) (filter (nth m) [0..<length a])"
proof (induction a arbitrary: m rule: rev_induct)
  case Nil
  then show ?case by (simp add: bool_index_def)
next
  case (snoc x a)
  then obtain m' b where m: "m = m' @ [b]" and len: "length a = length m'"
    by (cases m rule: rev_cases) auto
  have f: "filter (nth (m' @ [b])) [0..<length m'] = filter (nth m') [0..<length m']"
    by (intro filter_cong) (auto simp: nth_append)
  have 1: "map (nth (a @ [x])) (filter (nth m') [0..<length m'])
         = map (nth a) (filter (nth m') [0..<length m'])"
    using len by (intro map_cong) (auto simp: nth_append)
  have 2: "(a @ [x]) ! length m' = x" "(m' @ [b]) ! length m' = b"
    using len by (simp_all add: nth_append)
  have "map (nth (a @ [x])) (filter (nth (m' @ [b])) [0..<length (a @ [x])])
      = map (nth (a @ [x])) (filter (nth (m' @ [b])) ([0..<length m'] @ [length m']))"
    using len by simp
  also have "\<dots> = map (nth a) (filter (nth m') [0..<length m']) @ (if b then [x] else [])"
    by (simp add: f 1 2)
  finally show ?case
    unfolding m bool_index_snoc[OF len] snoc.IH[OF len] using len by simp
qed

lemma length_bool_index_same:
  "length a = length m \<Longrightarrow> length b = length m \<Longrightarrow> length (bool_index a m) = length (bool_index b m)"
  by (simp add: bool_index_eq_nths)

lemma argmax_from_less: "ibest < i \<Longrightarrow> argmax_from best ibest i xs < i + length xs"
proof (induction xs arbitrary: best ibest i)
  case Nil
  then show ?case by simp
next
  case (Cons x xs)
  have a: "argmax_from x i (Suc i) xs < Suc i + length xs" by (rule Cons.IH) simp
  have b: "argmax_from best ibest (Suc i) xs < Suc i + length xs"
    by (rule Cons.IH) (use Cons.prems in simp)
  show ?case using a b by simp
qed

lemma argmax_less: "argmax xs = Inr k \<Longrightarrow> k < length xs"
  using argmax_from_less[of 0 1] by (auto simp: argmax_def split: list.splits)

lemma find_best_split_sorted_Inr:
  assumes "find_best_split_sorted ps = Inr (ths, gs, t, g)"
  shows "ths = bool_index (midpoints (map fst ps)) (change_mask (map fst ps))"
    and "gs = bool_index (gini_all (map snd ps)) (change_mask (map fst ps))"
    and "\<exists>k. argmax gs = Inr k \<and> t = ths ! k \<and> g = gs ! k"
    and "ps \<noteq> []"
  using assms
  by (auto simp: find_best_split_sorted_def Let_def split: if_splits sum.splits)

lemma length_thresholds_ginis:
  "length (bool_index (gini_all (map snd ps)) (change_mask (map fst ps)))
   = length (bool_index (midpoints (map fst ps)) (change_mask (map fst ps)))"
  by (rule length_bool_index_same) simp_all

lemma threshold_between:
  assumes "sorted fs" and "t \<in> set (bool_index (midpoints fs) (change_mask fs))"
  shows "\<exists>i. Suc i < length fs \<and> fs ! i < t \<and> t < fs ! Suc i"
proof -
  from assms(2) obtain i where i: "i < length fs - 1" "change_mask fs ! i" "t = midpoints fs ! i"
    by (auto simp: bool_index_eq_nths)
  then have si: "Suc i < length fs" by simp
  have le: "fs ! i \<le> fs ! Suc i"
    using assms(1) si by (simp add: sorted_iff_nth_mono)
  have ne: "fs ! Suc i \<noteq> fs ! i" using i(2) by (simp add: nth_change_mask[OF si])
  have "t = (fs ! Suc i + fs ! i) / 2" using i(3) by (simp add: nth_midpoints[OF si])
  with le ne have "fs ! i < t \<and> t < fs ! Suc i" by (simp add: field_simps)
  with si show ?thesis by blast
qed

lemma argsort_pairs_fst:
  "length fv \<le> length tv \<Longrightarrow> sorted (map fst (argsort_pairs fv tv))"
  "length fv \<le> length tv \<Longrightarrow> set (map fst (argsort_pairs fv tv)) = set fv"
  "length fv \<le> length tv \<Longrightarrow> length (argsort_pairs fv tv) = length fv"
proof -
  assume l: "length fv \<le> length tv"
  show "sorted (map fst (argsort_pairs fv tv))" by (simp add: argsort_pairs_def)
  have "map fst (zip fv tv) = fv" using l by (simp add: map_fst_zip_take)
  then have "set fv = fst ` set (zip fv tv)" by (metis set_map)
  then show "set (map fst (argsort_pairs fv tv)) = set fv" by (simp add: argsort_pairs_def)
  show "length (argsort_pairs fv tv) = length fv" using l by (simp add: argsort_pairs_def)
qed

lemma find_best_split_between:
  assumes "find_best_split fv tv = Inr (ths, gs, t, g)"
  shows "\<exists>a\<in>set fv. \<exists>b\<in>set fv. a < t \<and> t < b"
proof -
  let ?ps = "argsort_pairs fv tv"
  let ?fs = "map fst ?ps"
  from assms have l: "length fv \<le> length tv" and s: "find_best_split_sorted ?ps = Inr (ths, gs, t, g)"
    by (auto simp: find_best_split_def split: if_splits)
  from find_best_split_sorted_Inr[OF s] obtain k where
    ths: "ths = bool_index (midpoints ?fs) (change_mask ?fs)" and
    gs: "gs = bool_index (gini_all (map snd ?ps)) (change_mask ?fs)" and
    k: "argmax gs = Inr k" "t = ths ! k" by blast
  have "k < length ths" using argmax_less[OF k(1)] unfolding gs ths length_thresholds_ginis .
  then have "t \<in> set (bool_index (midpoints ?fs) (change_mask ?fs))"
    using k(2) ths by simp
  from threshold_between[OF argsort_pairs_fst(1)[OF l] this] obtain i where
    i: "Suc i < length ?fs" "?fs ! i < t" "t < ?fs ! Suc i" by blast
  have "?fs ! i \<in> set ?fs" "?fs ! Suc i \<in> set ?fs" using i(1) by (auto intro: nth_mem)
  then have "?fs ! i \<in> set fv" "?fs ! Suc i \<in> set fv"
    unfolding argsort_pairs_fst(2)[OF l] by auto
  with i show ?thesis by blast
qed

definition proper_split :: "nat \<Rightarrow> best \<Rightarrow> bool" where
  "proper_split n best =
     (case best of None \<Rightarrow> True
      | Some (f, v, g, split) \<Rightarrow> length split = n \<and> True \<in> set split \<and> False \<in> set split)"

lemma length_feature_vector_of:
  "feature_vector_of ft sub_X sub_y f = Inr (fv, cm) \<Longrightarrow> length fv = length sub_X"
  by (auto simp: feature_vector_of_def column_def encode_def Let_def split: if_splits)

lemma scan_feature_cases:
  assumes "scan_feature self sub_X sub_y f best = Inr best'"
  shows "best' = best \<or>
    (\<exists>fv cm ths gs t g v.
       feature_vector_of (feature_types self ! f) sub_X sub_y f = Inr (fv, cm) \<and>
       find_best_split fv sub_y = Inr (ths, gs, t, g) \<and>
       threshold_best_of (feature_types self ! f) t cm = Inr v \<and>
       best' = Some (f, v, g, map (\<lambda>x. x < t) fv))"
proof (cases "length (feature_types self) \<le> f")
  case True
  with assms show ?thesis by (simp add: scan_feature_def Let_def)
next
  case False
  show ?thesis
  proof (cases "feature_vector_of (feature_types self ! f) sub_X sub_y f")
    case (Inl e)
    with assms False show ?thesis by (simp add: scan_feature_def Let_def)
  next
    case (Inr p)
    obtain fv cm where p: "p = (fv, cm)" by (cases p)
    show ?thesis
    proof (cases "find_best_split fv sub_y")
      case (Inl e)
      with assms False Inr p show ?thesis
        by (simp add: scan_feature_def Let_def split: if_splits)
    next
      case r: (Inr q)
      obtain ths gs t g where q: "q = (ths, gs, t, g)" by (cases q)
      show ?thesis
      proof (cases "threshold_best_of (feature_types self ! f) t cm")
        case (Inl e)
        with assms False Inr p r q show ?thesis
          by (simp add: scan_feature_def Let_def split: if_splits)
      next
        case v: (Inr v)
        with assms False Inr p r q show ?thesis
          by (simp add: scan_feature_def Let_def split: if_splits)
      qed
    qed
  qed
qed

lemma scan_feature_proper:
  assumes "scan_feature self sub_X sub_y f best = Inr best'" and "proper_split (length sub_X) best"
  shows "proper_split (length sub_X) best'"
proof (cases "best' = best")
  case True
  with assms show ?thesis by simp
next
  case False
  with scan_feature_cases[OF assms(1)] obtain fv cm ths gs t g v where
    fv: "feature_vector_of (feature_types self ! f) sub_X sub_y f = Inr (fv, cm)" and
    fbs: "find_best_split fv sub_y = Inr (ths, gs, t, g)" and
    b: "best' = Some (f, v, g, map (\<lambda>x. x < t) fv)"
    by blast
  from find_best_split_between[OF fbs] obtain a b' where
    ab: "a \<in> set fv" "b' \<in> set fv" "a < t" "t < b'" by blast
  have "True \<in> (\<lambda>x. x < t) ` set fv"
    using ab(1,3) by (intro image_eqI[where x = a]) simp_all
  moreover have "False \<in> (\<lambda>x. x < t) ` set fv"
    using ab(2,4) by (intro image_eqI[where x = b']) simp_all
  ultimately show ?thesis
    using length_feature_vector_of[OF fv] by (simp add: proper_split_def b)
qed

lemma scan_features_proper:
  "scan_features self sub_X sub_y fs best = Inr best' \<Longrightarrow> proper_split (length sub_X) best
   \<Longrightarrow> proper_split (length sub_X) best'"
proof (induction fs arbitrary: best)
  case Nil
  then show ?case by simp
next
  case (Cons f fs)
  from Cons.prems(1) obtain b1 where
    1: "scan_feature self sub_X sub_y f best = Inr b1" and
    2: "scan_features self sub_X sub_y fs b1 = Inr best'"
    by (cases "scan_feature self sub_X sub_y f best") simp_all
  show ?case
    by (rule Cons.IH[OF 2]) (rule scan_feature_proper[OF 1 Cons.prems(2)])
qed

lemma length_bool_index_less:
  assumes "length a = length m" and "False \<in> set m"
  shows "length (bool_index a m) < length a"
proof -
  from assms(2) obtain i where i: "i < length m" "m ! i = False"
    by (auto simp: in_set_conv_nth)
  then have "zip a m ! i = (a ! i, False)" "i < length (zip a m)"
    using assms(1) by simp_all
  then have mem: "(a ! i, False) \<in> set (zip a m)" by (metis nth_mem)
  have "length (bool_index a m) = length (filter snd (zip a m))" by (simp add: bool_index_def)
  also have "\<dots> < length (zip a m)"
    by (rule length_filter_less[OF mem]) simp
  finally show ?thesis using assms(1) by simp
qed

lemma scan_shrinks:
  assumes "scan_features self sub_X sub_y fs None = Inr (Some (f, v, g, split))"
    and "length sub_y = length sub_X"
  shows "length (bool_index sub_y split) < length sub_y"
    and "length (bool_index sub_y (map Not split)) < length sub_y"
proof -
  have "proper_split (length sub_X) (Some (f, v, g, split))"
    by (rule scan_features_proper[OF assms(1)]) (simp add: proper_split_def)
  then have p: "length split = length sub_X" "True \<in> set split" "False \<in> set split"
    by (simp_all add: proper_split_def)
  show "length (bool_index sub_y split) < length sub_y"
    using p assms(2) by (intro length_bool_index_less) simp_all
  have "False \<in> set (map Not split)" using p(2) by (force simp: image_iff)
  then show "length (bool_index sub_y (map Not split)) < length sub_y"
    using p assms(2) by (intro length_bool_index_less) simp_all
qed

lemma scan_shrinks_left:
  assumes "scan_features self sub_X sub_y fs None = Inr (Some x2)"
    and "(x, y) = x2" and "(xa, ya) = y" and "(xb, yb) = ya" and "length sub_y = length sub_X"
  shows "length (bool_index sub_y yb) < length sub_X"
proof -
  have "scan_features self sub_X sub_y fs None = Inr (Some (x, xa, xb, yb))"
    using assms(1-4) by simp
  from scan_shrinks(1)[OF this assms(5)] show ?thesis using assms(5) by simp
qed

lemma scan_shrinks_right:
  assumes "scan_features self sub_X sub_y fs None = Inr (Some x2)"
    and "(x, y) = x2" and "(xa, ya) = y" and "(xb, yb) = ya" and "length sub_y = length sub_X"
  shows "length (bool_index sub_y (map Not yb)) < length sub_X"
proof -
  have "scan_features self sub_X sub_y fs None = Inr (Some (x, xa, xb, yb))"
    using assms(1-4) by simp
  from scan_shrinks(2)[OF this assms(5)] show ?thesis using assms(5) by simp
qed

subsection \<open>\<^verbatim>\<open>_fit_node\<close>, \<^verbatim>\<open>fit\<close>, \<^verbatim>\<open>_predict_node\<close> and \<^verbatim>\<open>predict\<close>\<close>

text \<open>
  \<^verbatim>\<open>_fit_node\<close> fills the dictionary \<^verbatim>\<open>node\<close> and increments \<^verbatim>\<open>self.depth\<close>: the
  model returns the node and the updated object. \<^verbatim>\<open>sub_y[0]\<close> raises on an empty
  vector, and \<^verbatim>\<open>sub_y[split]\<close> raises when the mask (as long as \<^verbatim>\<open>sub_X\<close>) and
  \<^verbatim>\<open>sub_y\<close> differ in length.
\<close>

function fit_node ::
  "DecisionTree \<Rightarrow> rat list list \<Rightarrow> int list \<Rightarrow> error + (node \<times> DecisionTree)" where
  "fit_node self sub_X sub_y =
    (if sub_y = [] then Inl IndexError
     else if list_all (\<lambda>v. v = sub_y ! 0) sub_y then Inr (Terminal (sub_y ! 0), self)
     else if int (length sub_y) \<le> min_samples_split self then
       (case most_common_1 sub_y of Inl e \<Rightarrow> Inl e | Inr c \<Rightarrow> Inr (Terminal c, self))
     else
       (case scan_features self sub_X sub_y [0..<shape1 sub_X] None of
          Inl e \<Rightarrow> Inl e
        | Inr None \<Rightarrow>
            (case most_common_1 sub_y of Inl e \<Rightarrow> Inl e | Inr c \<Rightarrow> Inr (Terminal c, self))
        | Inr (Some (feature_best, threshold_best, gini_best, split)) \<Rightarrow>
            if length (feature_types self) \<le> feature_best then Inl IndexError
            else if feature_types self ! feature_best \<noteq> ''real''
                  \<and> feature_types self ! feature_best \<noteq> ''categorical'' then Inl ValueError_feature
            else if length sub_y \<noteq> length sub_X then Inl IndexError
            else
              (case fit_node (self\<lparr>depth := depth self + 1\<rparr>)
                      (bool_index sub_X split) (bool_index sub_y split) of
                 Inl e \<Rightarrow> Inl e
               | Inr (left_child, self1) \<Rightarrow>
                   (case fit_node self1 (bool_index sub_X (map Not split))
                           (bool_index sub_y (map Not split)) of
                      Inl e \<Rightarrow> Inl e
                    | Inr (right_child, self2) \<Rightarrow>
                        Inr (Nonterminal feature_best threshold_best left_child right_child,
                             self2)))))"
  by pat_completeness auto
termination
  apply (relation "measure (\<lambda>(self, sub_X, sub_y). length sub_y)")
    apply simp
   apply simp_all
   apply (erule (4) scan_shrinks_left)
  apply (erule (4) scan_shrinks_right)
  done

declare fit_node.simps [simp del]

text \<open>
  \<^verbatim>\<open>fit\<close> fills \<^verbatim>\<open>self.tree\<close>, which is the empty dictionary (\<open>None\<close>) before.
\<close>

definition fit :: "DecisionTree \<Rightarrow> rat list list \<Rightarrow> int list \<Rightarrow> error + DecisionTree" where
  "fit self X y =
    (case fit_node self X y of
       Inl e \<Rightarrow> Inl e
     | Inr (node, self') \<Rightarrow> Inr (self'\<lparr>tree := Some node\<rparr>))"

text \<open>
  \<^verbatim>\<open>_predict_node\<close> reads the feature type from the model, not from the node, and then
  the key \<^verbatim>\<open>threshold\<close> or \<^verbatim>\<open>categories_split\<close> of the node.
\<close>

fun predict_node :: "DecisionTree \<Rightarrow> rat list \<Rightarrow> node \<Rightarrow> error + int" where
  "predict_node self x (Terminal c) = Inr c"
| "predict_node self x (Nonterminal feature_split v left_child right_child) =
    (if length (feature_types self) \<le> feature_split then Inl IndexError
     else if feature_types self ! feature_split = ''real'' then
       (if length x \<le> feature_split then Inl IndexError
        else case v of
               Threshold threshold \<Rightarrow>
                 if x ! feature_split < threshold then predict_node self x left_child
                 else predict_node self x right_child
             | Categories _ \<Rightarrow> Inl KeyError)
     else
       (if length x \<le> feature_split then Inl IndexError
        else case v of
               Categories categories_split \<Rightarrow>
                 if x ! feature_split \<in> set categories_split then predict_node self x left_child
                 else predict_node self x right_child
             | Threshold _ \<Rightarrow> Inl KeyError))"

fun predict_rows :: "DecisionTree \<Rightarrow> node \<Rightarrow> rat list list \<Rightarrow> error + int list" where
  "predict_rows self node [] = Inr []"
| "predict_rows self node (x # X) =
     (case predict_node self x node of
        Inl e \<Rightarrow> Inl e
      | Inr c \<Rightarrow>
          (case predict_rows self node X of Inl e \<Rightarrow> Inl e | Inr predicted \<Rightarrow> Inr (c # predicted)))"

definition predict :: "DecisionTree \<Rightarrow> rat list list \<Rightarrow> error + int list" where
  "predict self X =
    (case tree self of
       None \<Rightarrow> (if X = [] then Inr [] else Inl KeyError)
     | Some node \<Rightarrow> predict_rows self node X)"

subsection \<open>When \<^verbatim>\<open>find_best_split\<close> raises, and the cases of \<^verbatim>\<open>_fit_node\<close>\<close>

lemma sorted_all_equal_or_change:
  assumes "sorted (fs :: rat list)" and "\<forall>i. Suc i < length fs \<longrightarrow> fs ! Suc i = fs ! i"
  shows "\<forall>i<length fs. fs ! i = fs ! 0"
proof (intro allI impI)
  fix i show "i < length fs \<Longrightarrow> fs ! i = fs ! 0"
  proof (induction i)
    case 0 then show ?case by simp
  next
    case (Suc i)
    then show ?case using assms(2) by simp
  qed
qed

lemma bool_index_Nil_iff:
  "length a = length m \<Longrightarrow> bool_index a m = [] \<longleftrightarrow> (\<forall>i<length m. \<not> m ! i)"
  by (auto simp: bool_index_eq_nths filter_empty_conv)

lemma argmax_Inl_iff: "argmax xs = Inl e \<longleftrightarrow> xs = [] \<and> e = ValueError_argmax"
  by (auto simp: argmax_def split: list.splits)

lemma find_best_split_sorted_Inl_iff:
  "find_best_split_sorted ps = Inl e \<longleftrightarrow>
     (ps = [] \<and> e = IndexError) \<or>
     (ps \<noteq> [] \<and> e = ValueError_argmax \<and>
      bool_index (gini_all (map snd ps)) (change_mask (map fst ps)) = [])"
proof (cases "ps = []")
  case True
  then show ?thesis by (auto simp: find_best_split_sorted_def)
next
  case False
  show ?thesis
  proof (cases "argmax (bool_index (gini_all (map snd ps)) (change_mask (map fst ps)))")
    case (Inl e')
    then have e': "bool_index (gini_all (map snd ps)) (change_mask (map fst ps)) = []"
      "e' = ValueError_argmax" by (simp_all add: argmax_Inl_iff)
    have "find_best_split_sorted ps = Inl ValueError_argmax"
      using False Inl e'(2) by (simp add: find_best_split_sorted_def Let_def)
    then show ?thesis using False e'(1) by auto
  next
    case (Inr k)
    then have "bool_index (gini_all (map snd ps)) (change_mask (map fst ps)) \<noteq> []"
      by (auto simp: argmax_def)
    then show ?thesis using False Inr
      by (simp add: find_best_split_sorted_def Let_def)
  qed
qed

lemma no_change_iff_constant:
  assumes "sorted fs" and "fs \<noteq> []"
  shows "(\<forall>i<length fs - 1. \<not> change_mask fs ! i) \<longleftrightarrow> (\<forall>x\<in>set fs. x = fs ! 0)"
proof
  assume "\<forall>i<length fs - 1. \<not> change_mask fs ! i"
  then have "\<forall>i. Suc i < length fs \<longrightarrow> fs ! Suc i = fs ! i"
    by (auto simp: nth_change_mask)
  from sorted_all_equal_or_change[OF assms(1) this]
  show "\<forall>x\<in>set fs. x = fs ! 0" by (auto simp: in_set_conv_nth)
next
  assume c: "\<forall>x\<in>set fs. x = fs ! 0"
  show "\<forall>i<length fs - 1. \<not> change_mask fs ! i"
  proof (intro allI impI)
    fix i assume "i < length fs - 1"
    then have si: "Suc i < length fs" by simp
    then have "fs ! Suc i = fs ! 0" "fs ! i = fs ! 0" using c by simp_all
    then show "\<not> change_mask fs ! i" by (simp add: nth_change_mask[OF si])
  qed
qed

lemma constant_set_iff:
  "xs \<noteq> [] \<Longrightarrow> list_all (\<lambda>v. v = xs ! 0) xs \<longleftrightarrow> (\<exists>c. set xs = {c})"
proof
  assume "xs \<noteq> []" "list_all (\<lambda>v. v = xs ! 0) xs"
  then have "set xs = {xs ! 0}" by (cases xs) (auto simp: list_all_iff)
  then show "\<exists>c. set xs = {c}" by blast
next
  assume "xs \<noteq> []" "\<exists>c. set xs = {c}"
  then obtain c where c: "set xs = {c}" by blast
  have "xs ! 0 \<in> set xs" using \<open>xs \<noteq> []\<close> by simp
  then show "list_all (\<lambda>v. v = xs ! 0) xs" using c by (auto simp: list_all_iff)
qed

lemma find_best_split_Inl_argmax_iff:
  "find_best_split fv tv = Inl ValueError_argmax \<longleftrightarrow>
     fv \<noteq> [] \<and> length fv \<le> length tv \<and> list_all (\<lambda>v. v = fv ! 0) fv"
proof (cases "length fv \<le> length tv \<and> fv \<noteq> []")
  case False
  then show ?thesis
    by (auto simp: find_best_split_def find_best_split_sorted_Inl_iff argsort_pairs_def)
next
  case True
  then have l: "length fv \<le> length tv" and ne: "fv \<noteq> []" by simp_all
  let ?ps = "argsort_pairs fv tv"
  let ?fs = "map fst ?ps"
  have len: "length ?ps = length fv" by (rule argsort_pairs_fst(3)[OF l])
  have fne: "?fs \<noteq> []" using len ne by auto
  have srt: "sorted ?fs" by (rule argsort_pairs_fst(1)[OF l])
  have st: "set ?fs = set fv" by (rule argsort_pairs_fst(2)[OF l])
  have "find_best_split fv tv = Inl ValueError_argmax
      \<longleftrightarrow> bool_index (gini_all (map snd ?ps)) (change_mask ?fs) = []"
    using l fne by (auto simp: find_best_split_def find_best_split_sorted_Inl_iff)
  also have "\<dots> \<longleftrightarrow> (\<forall>i<length ?fs - 1. \<not> change_mask ?fs ! i)"
    by (subst bool_index_Nil_iff) simp_all
  also have "\<dots> \<longleftrightarrow> (\<forall>x\<in>set ?fs. x = ?fs ! 0)"
    by (rule no_change_iff_constant[OF srt fne])
  also have "\<dots> \<longleftrightarrow> (\<exists>c. set ?fs = {c})"
    using constant_set_iff[OF fne] by (simp add: list_all_iff)
  also have "\<dots> \<longleftrightarrow> list_all (\<lambda>v. v = fv ! 0) fv"
    unfolding st using constant_set_iff[OF ne] by simp
  finally show ?thesis using l ne by simp
qed




lemma fit_node_cases [case_names empty pure size scan_error no_candidate bad_best split]:
  obtains
    "sub_y = []" "fit_node self sub_X sub_y = Inl IndexError"
  | "sub_y \<noteq> []" "list_all (\<lambda>v. v = sub_y ! 0) sub_y"
    "fit_node self sub_X sub_y = Inr (Terminal (sub_y ! 0), self)"
  | "sub_y \<noteq> []" "\<not> list_all (\<lambda>v. v = sub_y ! 0) sub_y"
    "int (length sub_y) \<le> min_samples_split self"
    "fit_node self sub_X sub_y =
       (case most_common_1 sub_y of Inl e \<Rightarrow> Inl e | Inr c \<Rightarrow> Inr (Terminal c, self))"
  | e where "sub_y \<noteq> []" "\<not> list_all (\<lambda>v. v = sub_y ! 0) sub_y"
    "\<not> int (length sub_y) \<le> min_samples_split self"
    "scan_features self sub_X sub_y [0..<shape1 sub_X] None = Inl e"
    "fit_node self sub_X sub_y = Inl e"
  | "sub_y \<noteq> []" "\<not> list_all (\<lambda>v. v = sub_y ! 0) sub_y"
    "\<not> int (length sub_y) \<le> min_samples_split self"
    "scan_features self sub_X sub_y [0..<shape1 sub_X] None = Inr None"
    "fit_node self sub_X sub_y =
       (case most_common_1 sub_y of Inl e \<Rightarrow> Inl e | Inr c \<Rightarrow> Inr (Terminal c, self))"
  | f v g split e where "sub_y \<noteq> []" "\<not> list_all (\<lambda>v. v = sub_y ! 0) sub_y"
    "\<not> int (length sub_y) \<le> min_samples_split self"
    "scan_features self sub_X sub_y [0..<shape1 sub_X] None = Inr (Some (f, v, g, split))"
    "length (feature_types self) \<le> f \<or>
     (feature_types self ! f \<noteq> ''real'' \<and> feature_types self ! f \<noteq> ''categorical'') \<or>
     length sub_y \<noteq> length sub_X"
    "e = IndexError \<or> e = ValueError_feature"
    "fit_node self sub_X sub_y = Inl e"
  | f v g split where "sub_y \<noteq> []" "\<not> list_all (\<lambda>v. v = sub_y ! 0) sub_y"
    "\<not> int (length sub_y) \<le> min_samples_split self"
    "scan_features self sub_X sub_y [0..<shape1 sub_X] None = Inr (Some (f, v, g, split))"
    "f < length (feature_types self)"
    "feature_types self ! f = ''real'' \<or> feature_types self ! f = ''categorical''"
    "length sub_y = length sub_X"
    "fit_node self sub_X sub_y =
      (case fit_node (self\<lparr>depth := depth self + 1\<rparr>)
              (bool_index sub_X split) (bool_index sub_y split) of
         Inl e \<Rightarrow> Inl e
       | Inr (left_child, self1) \<Rightarrow>
           (case fit_node self1 (bool_index sub_X (map Not split))
                   (bool_index sub_y (map Not split)) of
              Inl e \<Rightarrow> Inl e
            | Inr (right_child, self2) \<Rightarrow>
                Inr (Nonterminal f v left_child right_child, self2)))"
proof (cases "sub_y = []")
  case True
  then show ?thesis using that(1) by (simp add: fit_node.simps)
next
  case ne: False
  show ?thesis
  proof (cases "list_all (\<lambda>v. v = sub_y ! 0) sub_y")
    case True
    then show ?thesis using that(2) ne by (simp add: fit_node.simps)
  next
    case np: False
    show ?thesis
    proof (cases "int (length sub_y) \<le> min_samples_split self")
      case True
      then show ?thesis using that(3) ne np by (simp add: fit_node.simps)
    next
      case ns: False
      show ?thesis
      proof (cases "scan_features self sub_X sub_y [0..<shape1 sub_X] None")
        case (Inl e)
        then show ?thesis using that(4) ne np ns by (simp add: fit_node.simps)
      next
        case (Inr b)
        show ?thesis
        proof (cases b)
          case None
          then show ?thesis using that(5) ne np ns Inr by (simp add: fit_node.simps)
        next
          case (Some p)
          obtain f v g split where p: "p = (f, v, g, split)" by (cases p)
          note sc = Inr[unfolded Some p]
          show ?thesis
          proof (cases "length (feature_types self) \<le> f \<or>
             (feature_types self ! f \<noteq> ''real'' \<and> feature_types self ! f \<noteq> ''categorical'') \<or>
             length sub_y \<noteq> length sub_X")
            case True
            have "\<exists>e. (e = IndexError \<or> e = ValueError_feature) \<and> fit_node self sub_X sub_y = Inl e"
              using True ne np ns sc by (subst fit_node.simps) auto
            then show ?thesis using that(6)[OF ne np ns sc True] by blast
          next
            case False
            show ?thesis
              apply (rule that(7)[OF ne np ns sc])
              using False apply simp
              using False apply simp
              using False apply simp
              apply (subst fit_node.simps)
              using False ne np ns sc apply auto
              done
          qed
        qed
      qed
    qed
  qed
qed

lemma feature_vector_of_Inl:
  "feature_vector_of ft sub_X sub_y f = Inl e \<Longrightarrow> e = IndexError \<or> e = ValueError_feature"
  by (auto simp: feature_vector_of_def Let_def split: if_splits)

lemma threshold_best_of_Inl:
  "threshold_best_of ft t cm = Inl e \<Longrightarrow> e = ValueError_feature"
  by (auto simp: threshold_best_of_def split: if_splits)

lemma scan_feature_constant:
  assumes "f < length (feature_types self)"
    and "feature_vector_of (feature_types self ! f) sub_X sub_y f = Inr (fv, cm)"
    and "fv \<noteq> []" and "list_all (\<lambda>v. v = fv ! 0) fv"
  shows "scan_feature self sub_X sub_y f best = Inr best"
  using assms by (simp add: scan_feature_def Let_def)

lemma scan_feature_not_argmax:
  "scan_feature self sub_X sub_y f best \<noteq> Inl ValueError_argmax"
proof (cases "length (feature_types self) \<le> f")
  case True
  then show ?thesis by (simp add: scan_feature_def)
next
  case False
  show ?thesis
  proof (cases "feature_vector_of (feature_types self ! f) sub_X sub_y f")
    case (Inl e)
    then have "scan_feature self sub_X sub_y f best = Inl e"
      using False by (simp add: scan_feature_def Let_def)
    then show ?thesis using feature_vector_of_Inl[OF Inl] by auto
  next
    case (Inr p)
    obtain fv cm where p: "p = (fv, cm)" by (cases p)
    show ?thesis
    proof (cases "fv = [] \<or> list_all (\<lambda>v. v = fv ! 0) fv")
      case True
      then show ?thesis using False Inr p by (auto simp: scan_feature_def Let_def)
    next
      case nc: False
      then have fbs: "find_best_split fv sub_y \<noteq> Inl ValueError_argmax"
        by (simp add: find_best_split_Inl_argmax_iff)
      show ?thesis
      proof (cases "find_best_split fv sub_y")
        case (Inl e)
        then have "scan_feature self sub_X sub_y f best = Inl e"
          using False Inr p nc by (simp add: scan_feature_def Let_def)
        then show ?thesis using fbs Inl by auto
      next
        case r: (Inr q)
        obtain ths gs t g where q: "q = (ths, gs, t, g)" by (cases q)
        show ?thesis
        proof (cases "threshold_best_of (feature_types self ! f) t cm")
          case (Inl e)
          then have "e = ValueError_feature" by (rule threshold_best_of_Inl)
          then show ?thesis using False Inr p nc r q Inl
            by (simp add: scan_feature_def Let_def)
        next
          case v: (Inr v)
          then show ?thesis using False Inr p nc r q
            by (simp add: scan_feature_def Let_def)
        qed
      qed
    qed
  qed
qed

lemma scan_features_not_argmax:
  "scan_features self sub_X sub_y fs best \<noteq> Inl ValueError_argmax"
proof (induction fs arbitrary: best)
  case Nil
  then show ?case by simp
next
  case (Cons f fs)
  show ?case
  proof (cases "scan_feature self sub_X sub_y f best")
    case (Inl e)
    then show ?thesis using scan_feature_not_argmax[of self sub_X sub_y f best] by auto
  next
    case (Inr b)
    then show ?thesis using Cons.IH[of b] by simp
  qed
qed

lemma most_common_1_Inl: "most_common_1 xs = Inl e \<Longrightarrow> e = IndexError"
  by (auto simp: most_common_1_def split: list.splits)

lemma fit_node_not_argmax: "fit_node self sub_X sub_y \<noteq> Inl ValueError_argmax"
proof (induction "length sub_y" arbitrary: self sub_X sub_y rule: less_induct)
  case less
  show ?case
  proof (cases self sub_X sub_y rule: fit_node_cases)
    case empty
    then show ?thesis by simp
  next
    case pure
    then show ?thesis by simp
  next
    case size
    then show ?thesis by (auto split: sum.splits dest: most_common_1_Inl)
  next
    case (scan_error e)
    then show ?thesis using scan_features_not_argmax[of self sub_X sub_y "[0..<shape1 sub_X]" None]
      by auto
  next
    case no_candidate
    then show ?thesis by (auto split: sum.splits dest: most_common_1_Inl)
  next
    case (bad_best f v g split e)
    then show ?thesis by auto
  next
    case (split f v g split)
    note sh = scan_shrinks[OF split(4,7)]
    have l: "fit_node (self\<lparr>depth := depth self + 1\<rparr>) (bool_index sub_X split)
               (bool_index sub_y split) \<noteq> Inl ValueError_argmax"
      by (rule less[OF sh(1)])
    have r: "\<And>s1. fit_node s1 (bool_index sub_X (map Not split))
               (bool_index sub_y (map Not split)) \<noteq> Inl ValueError_argmax"
      by (rule less[OF sh(2)])
    show ?thesis unfolding split(8) using l r
      by (auto split: sum.splits prod.splits)
  qed
qed

subsection \<open>What \<^verbatim>\<open>_fit_node\<close> reads from the object and what it changes\<close>

lemma scan_feature_cong:
  "feature_types m1 = feature_types m2 \<Longrightarrow>
   scan_feature m1 sub_X sub_y f best = scan_feature m2 sub_X sub_y f best"
  by (simp add: scan_feature_def)

lemma scan_features_cong:
  "feature_types m1 = feature_types m2 \<Longrightarrow>
   scan_features m1 sub_X sub_y fs best = scan_features m2 sub_X sub_y fs best"
  by (induction fs arbitrary: best) (simp_all add: scan_feature_cong[of m1 m2] split: sum.splits)

lemma fit_node_changes_depth_only:
  "fit_node self sub_X sub_y = Inr (t, self') \<Longrightarrow> self' = self\<lparr>depth := depth self'\<rparr>"
proof (induction "length sub_y" arbitrary: self sub_X sub_y t self' rule: less_induct)
  case less
  show ?case
  proof (cases self sub_X sub_y rule: fit_node_cases)
    case empty
    then show ?thesis using less.prems by simp
  next
    case pure
    then show ?thesis using less.prems by simp
  next
    case size
    then show ?thesis using less.prems by (auto split: sum.splits)
  next
    case (scan_error e)
    then show ?thesis using less.prems by simp
  next
    case no_candidate
    then show ?thesis using less.prems by (auto split: sum.splits)
  next
    case (bad_best f v g split e)
    then show ?thesis using less.prems by simp
  next
    case (split f v g split)
    note sh = scan_shrinks[OF split(4,7)]
    from less.prems split(8) obtain l s1 r where
      l: "fit_node (self\<lparr>depth := depth self + 1\<rparr>) (bool_index sub_X split)
            (bool_index sub_y split) = Inr (l, s1)" and
      r: "fit_node s1 (bool_index sub_X (map Not split)) (bool_index sub_y (map Not split))
            = Inr (r, self')"
      by (auto split: sum.splits prod.splits)
    have 1: "s1 = self\<lparr>depth := depth self + 1\<rparr>\<lparr>depth := depth s1\<rparr>"
      by (rule less.hyps[OF sh(1) l])
    have 2: "self' = s1\<lparr>depth := depth self'\<rparr>"
      by (rule less.hyps[OF sh(2) r])
    show ?thesis by (subst 2, subst 1) simp
  qed
qed

lemma fit_node_inert:
  assumes "feature_types m1 = feature_types m2"
    and "min_samples_split m1 = min_samples_split m2"
  shows "map_sum id fst (fit_node m1 sub_X sub_y) = map_sum id fst (fit_node m2 sub_X sub_y)"
  using assms
proof (induction "length sub_y" arbitrary: m1 m2 sub_X sub_y rule: less_induct)
  case less
  note ft = less.prems(1) and ms = less.prems(2)
  note sc = scan_features_cong[OF ft, of sub_X sub_y "[0..<shape1 sub_X]" None]
  show ?case
  proof (cases m1 sub_X sub_y rule: fit_node_cases)
    case empty
    then show ?thesis by (simp add: fit_node.simps)
  next
    case pure
    then show ?thesis by (simp add: fit_node.simps[of m2])
  next
    case size
    then show ?thesis using ms by (simp add: fit_node.simps[of m2] split: sum.splits)
  next
    case (scan_error e)
    then show ?thesis using ms sc by (simp add: fit_node.simps[of m2])
  next
    case no_candidate
    then show ?thesis using ms sc by (simp add: fit_node.simps[of m2] split: sum.splits)
  next
    case (bad_best f v g split e)
    have "fit_node m2 sub_X sub_y = Inl e"
      using bad_best(1-6) ms sc ft bad_best(7)
      by (subst fit_node.simps, subst (asm) fit_node.simps) (simp split: if_splits)
    then show ?thesis using bad_best(7) by simp
  next
    case (split f v g split)
    note sh = scan_shrinks[OF split(4,7)]
    let ?L = "\<lambda>m. fit_node (m\<lparr>depth := depth m + 1\<rparr>) (bool_index sub_X split)
                 (bool_index sub_y split)"
    let ?R = "\<lambda>m. fit_node m (bool_index sub_X (map Not split))
                 (bool_index sub_y (map Not split))"
    have m2: "fit_node m2 sub_X sub_y =
      (case ?L m2 of Inl e \<Rightarrow> Inl e
       | Inr (left_child, self1) \<Rightarrow>
           (case ?R self1 of Inl e \<Rightarrow> Inl e
            | Inr (right_child, self2) \<Rightarrow> Inr (Nonterminal f v left_child right_child, self2)))"
      using split(1-7) ms sc ft by (subst fit_node.simps) auto
    have L: "map_sum id fst (?L m1) = map_sum id fst (?L m2)"
      by (rule less.hyps[OF sh(1)]) (simp_all add: ft ms)
    show ?thesis
    proof (cases "?L m1")
      case (Inl e)
      then have "?L m2 = Inl e" using L by (cases "?L m2") simp_all
      then show ?thesis using Inl by (simp add: split(8) m2)
    next
      case (Inr p)
      obtain l s1 where p: "p = (l, s1)" by (cases p)
      from Inr p L obtain s2 where 2: "?L m2 = Inr (l, s2)"
        by (cases "?L m2") auto
      have e1: "s1 = m1\<lparr>depth := depth m1 + 1\<rparr>\<lparr>depth := depth s1\<rparr>"
        by (rule fit_node_changes_depth_only[OF Inr[unfolded p]])
      have e2: "s2 = m2\<lparr>depth := depth m2 + 1\<rparr>\<lparr>depth := depth s2\<rparr>"
        by (rule fit_node_changes_depth_only[OF 2])
      have "feature_types s1 = feature_types s2" "min_samples_split s1 = min_samples_split s2"
        by (subst e1, subst e2, simp add: ft ms)+
      then have R: "map_sum id fst (?R s1) = map_sum id fst (?R s2)"
        by (rule less.hyps[OF sh(2)])
      show ?thesis
      proof (cases "?R s1")
        case (Inl e)
        then have "?R s2 = Inl e" using R by (cases "?R s2") simp_all
        then show ?thesis using Inl Inr p 2 by (simp add: split(8) m2)
      next
        case r: (Inr q)
        obtain r s1' where q: "q = (r, s1')" by (cases q)
        from r q R obtain s2' where "?R s2 = Inr (r, s2')" by (cases "?R s2") auto
        then show ?thesis using r q Inr p 2 by (simp add: split(8) m2)
      qed
    qed
  qed
qed

lemma predict_node_cong:
  "feature_types m1 = feature_types m2 \<Longrightarrow> predict_node m1 x t = predict_node m2 x t"
  by (induction t) (simp_all split: split_value.splits)

lemma predict_rows_cong:
  "feature_types m1 = feature_types m2 \<Longrightarrow> predict_rows m1 t X = predict_rows m2 t X"
  by (induction X) (simp_all add: predict_node_cong[of m1 m2] split: sum.splits)

subsection \<open>\<^verbatim>\<open>_fit_node\<close> returns on every well-formed input\<close>

lemma counter_add_not_Nil: "counter_add x d \<noteq> []"
  by (cases d) simp_all

lemma Counter_snoc: "Counter (xs @ [x]) = counter_add x (Counter xs)"
  by (simp add: Counter_def)

lemma Counter_Nil_iff: "Counter xs = [] \<longleftrightarrow> xs = []"
  by (cases xs rule: rev_cases) (simp_all add: Counter_def counter_add_not_Nil)

lemma most_common_1_succeeds: "xs \<noteq> [] \<Longrightarrow> \<exists>c. most_common_1 xs = Inr c"
  by (auto simp: most_common_1_def Counter_Nil_iff split: list.splits)


lemma set_bool_index_subset: "set (bool_index a m) \<subseteq> set a"
  by (auto simp: bool_index_def dest: set_zip_leftD)






definition chosen :: "DecisionTree \<Rightarrow> rat list list \<Rightarrow> int list \<Rightarrow> best \<Rightarrow> bool" where
  "chosen self sub_X sub_y best =
     (case best of None \<Rightarrow> True
      | Some (f, v, g, split) \<Rightarrow>
          f < length (feature_types self) \<and>
          (\<exists>fv cm ths gs t.
             feature_vector_of (feature_types self ! f) sub_X sub_y f = Inr (fv, cm) \<and>
             find_best_split fv sub_y = Inr (ths, gs, t, g) \<and>
             threshold_best_of (feature_types self ! f) t cm = Inr v \<and>
             split = map (\<lambda>x. x < t) fv))"

lemma scan_feature_Inr_bound:
  "scan_feature self sub_X sub_y f best = Inr best' \<Longrightarrow> f < length (feature_types self)"
  by (cases "length (feature_types self) \<le> f") (simp_all add: scan_feature_def)

lemma scan_feature_chosen:
  assumes "scan_feature self sub_X sub_y f best = Inr best'" and "chosen self sub_X sub_y best"
  shows "chosen self sub_X sub_y best'"
proof (cases "best' = best")
  case True
  with assms show ?thesis by simp
next
  case False
  with scan_feature_cases[OF assms(1)] obtain fv cm ths gs t g v where
    "feature_vector_of (feature_types self ! f) sub_X sub_y f = Inr (fv, cm)"
    "find_best_split fv sub_y = Inr (ths, gs, t, g)"
    "threshold_best_of (feature_types self ! f) t cm = Inr v"
    "best' = Some (f, v, g, map (\<lambda>x. x < t) fv)"
    by blast
  then show ?thesis using scan_feature_Inr_bound[OF assms(1)]
    by (auto simp: chosen_def)
qed

lemma scan_features_chosen:
  "scan_features self sub_X sub_y fs best = Inr best' \<Longrightarrow> chosen self sub_X sub_y best
   \<Longrightarrow> chosen self sub_X sub_y best'"
proof (induction fs arbitrary: best)
  case Nil
  then show ?case by simp
next
  case (Cons f fs)
  from Cons.prems(1) obtain b1 where
    1: "scan_feature self sub_X sub_y f best = Inr b1" and
    2: "scan_features self sub_X sub_y fs b1 = Inr best'"
    by (cases "scan_feature self sub_X sub_y f best") simp_all
  show ?case
    by (rule Cons.IH[OF 2]) (rule scan_feature_chosen[OF 1 Cons.prems(2)])
qed

lemma threshold_best_of_Inr:
  "threshold_best_of ft t cm = Inr v \<Longrightarrow>
     (ft = ''real'' \<and> v = Threshold t) \<or>
     (ft = ''categorical'' \<and>
      v = Categories (map fst (filter (\<lambda>x. rat_of_nat (snd x) < t) cm)))"
  by (auto simp: threshold_best_of_def split: if_splits)

lemma scan_features_Some:
  assumes "scan_features self sub_X sub_y fs None = Inr (Some (f, v, g, split))"
  shows "f < length (feature_types self)"
    and "feature_types self ! f = ''real'' \<or> feature_types self ! f = ''categorical''"
    and "\<exists>fv cm ths gs t.
             feature_vector_of (feature_types self ! f) sub_X sub_y f = Inr (fv, cm) \<and>
             find_best_split fv sub_y = Inr (ths, gs, t, g) \<and>
             threshold_best_of (feature_types self ! f) t cm = Inr v \<and>
             split = map (\<lambda>x. x < t) fv"
proof -
  have c: "chosen self sub_X sub_y (Some (f, v, g, split))"
    by (rule scan_features_chosen[OF assms]) (simp add: chosen_def)
  then show "f < length (feature_types self)" by (simp add: chosen_def)
  from c show e: "\<exists>fv cm ths gs t.
             feature_vector_of (feature_types self ! f) sub_X sub_y f = Inr (fv, cm) \<and>
             find_best_split fv sub_y = Inr (ths, gs, t, g) \<and>
             threshold_best_of (feature_types self ! f) t cm = Inr v \<and>
             split = map (\<lambda>x. x < t) fv" by (simp add: chosen_def)
  then show "feature_types self ! f = ''real'' \<or> feature_types self ! f = ''categorical''"
    using threshold_best_of_Inr by blast
qed



subsection \<open>The thresholds and the best split of \<^verbatim>\<open>find_best_split\<close>\<close>










subsection \<open>The criterion of the specification and the cumulative sums of the code\<close>



lemma nth_cumsum_from:
  "i < length xs \<Longrightarrow> cumsum_from acc xs ! i = acc + sum_list (take (Suc i) xs)"
proof (induction xs arbitrary: acc i)
  case Nil
  then show ?case by simp
next
  case (Cons x xs)
  then show ?case by (cases i) simp_all
qed

lemma nth_cumsum: "i < length xs \<Longrightarrow> cumsum xs ! i = sum_list (take (Suc i) xs)"
  by (simp add: cumsum_def nth_cumsum_from)

lemma last_cumsum: "xs \<noteq> [] \<Longrightarrow> last (cumsum xs) = sum_list xs"
proof -
  assume ne: "xs \<noteq> []"
  then have "cumsum xs \<noteq> []" by (metis length_cumsum length_0_conv)
  then have "last (cumsum xs) = cumsum xs ! (length xs - 1)"
    by (simp add: last_conv_nth)
  also have "\<dots> = sum_list (take (Suc (length xs - 1)) xs)"
    using ne by (intro nth_cumsum) simp
  finally show ?thesis using ne by simp
qed

lemma nth_gini_all:
  assumes "Suc i < length ts"
  shows "gini_all ts ! i =
     rat_of_nat (Suc i) / rat_of_nat (length ts) *
       ((1 - rat_of_int (sum_list (take (Suc i) ts)) / rat_of_nat (Suc i))\<^sup>2
        + (rat_of_int (sum_list (take (Suc i) ts)) / rat_of_nat (Suc i))\<^sup>2 - 1)
     + rat_of_nat (length ts - Suc i) / rat_of_nat (length ts) *
       ((1 - rat_of_int (sum_list ts - sum_list (take (Suc i) ts)) / rat_of_nat (length ts - Suc i))\<^sup>2
        + (rat_of_int (sum_list ts - sum_list (take (Suc i) ts)) / rat_of_nat (length ts - Suc i))\<^sup>2 - 1)"
proof -
  have ne: "ts \<noteq> []" using assms by auto
  have i: "i < length ts - 1" "i < length ts" using assms by simp_all
  have c: "butlast (cumsum ts) ! i = sum_list (take (Suc i) ts)"
    using i by (simp add: nth_butlast nth_cumsum)
  have u: "[1..<length ts] ! i = Suc i" using i by simp
  show ?thesis
    using i c u by (simp add: gini_all_def Let_def last_cumsum[OF ne])
qed





lemma ginis_eq:
  assumes "length fs = length ts"
  shows "bool_index (gini_all ts) (change_mask fs)
   = map (\<lambda>i. gini_all ts ! i) (filter (\<lambda>i. fs ! i \<noteq> fs ! Suc i) [0..<length fs - 1])"
proof -
  have "bool_index (gini_all ts) (change_mask fs)
        = map (nth (gini_all ts)) (filter (nth (change_mask fs)) [0..<length ts - 1])"
    using assms by (simp add: bool_index_eq_nths)
  also have "filter (nth (change_mask fs)) [0..<length ts - 1]
           = filter (\<lambda>i. fs ! i \<noteq> fs ! Suc i) [0..<length fs - 1]"
    unfolding assms[symmetric] by (rule filter_cong) (auto simp: nth_change_mask)
  finally show ?thesis .
qed

subsection \<open>\<^verbatim>\<open>Counter\<close>: the counts, in the order of first occurrence\<close>

definition first_occurrences :: "'a list \<Rightarrow> 'a list" where
  "first_occurrences xs = rev (remdups (rev xs))"

lemma first_occurrences_snoc:
  "first_occurrences (xs @ [x])
   = (if x \<in> set xs then first_occurrences xs else first_occurrences xs @ [x])"
  by (simp add: first_occurrences_def)

lemma set_first_occurrences [simp]: "set (first_occurrences xs) = set xs"
  by (simp add: first_occurrences_def)

lemma distinct_first_occurrences [simp]: "distinct (first_occurrences xs)"
  by (simp add: first_occurrences_def)

lemma counter_add_map:
  "distinct ks \<Longrightarrow>
   counter_add x (map (\<lambda>k. (k, c k)) ks)
   = (if x \<in> set ks then map (\<lambda>k. (k, if k = x then Suc (c k) else c k)) ks
      else map (\<lambda>k. (k, c k)) ks @ [(x, 1)])"
  by (induction ks) auto

lemma Counter_eq:
  "Counter xs = map (\<lambda>k. (k, count_list xs k)) (first_occurrences xs)"
proof (induction xs rule: rev_induct)
  case Nil
  then show ?case by (simp add: Counter_def first_occurrences_def)
next
  case (snoc x xs)
  show ?case
  proof (cases "x \<in> set xs")
    case True
    then show ?thesis
      unfolding Counter_snoc snoc.IH
      by (simp add: counter_add_map first_occurrences_snoc)
  next
    case False
    then have "count_list xs x = 0" by (simp add: count_list_0_iff)
    then show ?thesis
      unfolding Counter_snoc snoc.IH using False
      by (auto simp: counter_add_map first_occurrences_snoc)
  qed
qed

lemma takeWhile_first_occurrences:
  "set (takeWhile (\<lambda>v. v \<noteq> c) (first_occurrences xs)) = set (takeWhile (\<lambda>v. v \<noteq> c) xs)"
proof (induction xs rule: rev_induct)
  case Nil
  then show ?case by (simp add: first_occurrences_def)
next
  case (snoc x xs)
  show ?case
  proof (cases "c \<in> set xs")
    case True
    then have 1: "takeWhile (\<lambda>v. v \<noteq> c) (xs @ [x]) = takeWhile (\<lambda>v. v \<noteq> c) xs"
      by (intro takeWhile_append1[of c]) simp_all
    have "c \<in> set (first_occurrences xs)" using True by simp
    then have 2: "takeWhile (\<lambda>v. v \<noteq> c) (first_occurrences xs @ [x])
               = takeWhile (\<lambda>v. v \<noteq> c) (first_occurrences xs)"
      by (intro takeWhile_append1[of c]) simp_all
    show ?thesis unfolding 1 first_occurrences_snoc using 2 snoc.IH by simp
  next
    case False
    then have 1: "takeWhile (\<lambda>v. v \<noteq> c) (xs @ [x]) = xs @ takeWhile (\<lambda>v. v \<noteq> c) [x]"
      by (intro takeWhile_append2) auto
    have a: "\<And>v. v \<in> set (first_occurrences xs) \<Longrightarrow> v \<noteq> c" using False by auto
    have 2: "takeWhile (\<lambda>v. v \<noteq> c) (first_occurrences xs @ [x])
               = first_occurrences xs @ takeWhile (\<lambda>v. v \<noteq> c) [x]"
      by (intro takeWhile_append2) (rule a)
    have 3: "takeWhile (\<lambda>v. v \<noteq> c) (first_occurrences xs) = first_occurrences xs"
      using a by (simp add: takeWhile_eq_all_conv)
    have 4: "set (takeWhile (\<lambda>v. v \<noteq> c) [x]) \<subseteq> {x}" by auto
    show ?thesis
    proof (cases "x \<in> set xs")
      case True
      have "first_occurrences (xs @ [x]) = first_occurrences xs"
        using True by (simp add: first_occurrences_snoc)
      then have "set (takeWhile (\<lambda>v. v \<noteq> c) (first_occurrences (xs @ [x]))) = set xs"
        by (simp only: 3 set_first_occurrences)
      moreover have "set (takeWhile (\<lambda>v. v \<noteq> c) (xs @ [x])) = set xs"
        unfolding 1 using True 4 by auto
      ultimately show ?thesis by simp
    next
      case False
      have "first_occurrences (xs @ [x]) = first_occurrences xs @ [x]"
        using False by (simp add: first_occurrences_snoc)
      then have "set (takeWhile (\<lambda>v. v \<noteq> c) (first_occurrences (xs @ [x])))
            = set xs \<union> set (takeWhile (\<lambda>v. v \<noteq> c) [x])"
        by (simp only: 2 set_append set_first_occurrences)
      then show ?thesis unfolding 1 by simp
    qed
  qed
qed

lemma max_first_spec:
  assumes "\<forall>kc\<in>set pre. snd kc < snd b" and "\<forall>kc\<in>set mid. snd kc \<le> snd b"
  shows "\<exists>pre' post'. pre @ b # mid @ d = pre' @ max_first b d # post' \<and>
           (\<forall>kc\<in>set pre'. snd kc < snd (max_first b d)) \<and>
           (\<forall>kc\<in>set post'. snd kc \<le> snd (max_first b d))"
  using assms
proof (induction d arbitrary: pre b mid)
  case Nil
  then show ?case by auto
next
  case (Cons kc d)
  show ?case
  proof (cases "snd b < snd kc")
    case True
    have "\<exists>pre' post'. (pre @ b # mid) @ kc # [] @ d = pre' @ max_first kc d # post' \<and>
           (\<forall>x\<in>set pre'. snd x < snd (max_first kc d)) \<and>
           (\<forall>x\<in>set post'. snd x \<le> snd (max_first kc d))"
    proof (rule Cons.IH)
      show "\<forall>x\<in>set (pre @ b # mid). snd x < snd kc"
        using Cons.prems True by (auto intro: less_trans le_less_trans)
      show "\<forall>x\<in>set []. snd x \<le> snd kc" by simp
    qed
    then show ?thesis using True by simp
  next
    case False
    have "\<exists>pre' post'. pre @ b # (mid @ [kc]) @ d = pre' @ max_first b d # post' \<and>
           (\<forall>x\<in>set pre'. snd x < snd (max_first b d)) \<and>
           (\<forall>x\<in>set post'. snd x \<le> snd (max_first b d))"
    proof (rule Cons.IH)
      show "\<forall>x\<in>set pre. snd x < snd b" by (rule Cons.prems(1))
      show "\<forall>x\<in>set (mid @ [kc]). snd x \<le> snd b" using Cons.prems(2) False by auto
    qed
    then show ?thesis using False by simp
  qed
qed

lemma most_common_1_spec:
  assumes "most_common_1 xs = Inr c"
  shows "c \<in> set xs"
    and "\<forall>c'. count_list xs c' \<le> count_list xs c"
    and "\<forall>c'\<in>set (takeWhile (\<lambda>v. v \<noteq> c) xs). count_list xs c' < count_list xs c"
proof -
  let ?F = "first_occurrences xs"
  let ?C = "map (\<lambda>k. (k, count_list xs k)) ?F"
  from assms obtain b d where bd: "Counter xs = b # d" and c: "c = fst (max_first b d)"
    by (auto simp: most_common_1_def split: list.splits)
  from max_first_spec[of "[]" b "[]" d] obtain pre post where
    dec: "b # d = pre @ max_first b d # post" and
    pre: "\<forall>kc\<in>set pre. snd kc < snd (max_first b d)" and
    post: "\<forall>kc\<in>set post. snd kc \<le> snd (max_first b d)" by auto
  have C: "?C = pre @ max_first b d # post" using bd dec Counter_eq[of xs] by simp
  then have "max_first b d \<in> set ?C" by simp
  then have m: "max_first b d = (c, count_list xs c)" and cF: "c \<in> set ?F"
    using c by auto
  show cx: "c \<in> set xs" using cF by simp
  have all: "\<forall>kc\<in>set ?C. snd kc \<le> count_list xs c"
    unfolding C using pre post m by (auto intro: less_imp_le)
  show "\<forall>c'. count_list xs c' \<le> count_list xs c"
  proof
    fix c'
    show "count_list xs c' \<le> count_list xs c"
    proof (cases "c' \<in> set xs")
      case True
      then have "(c', count_list xs c') \<in> set ?C" by auto
      then show ?thesis using all by fastforce
    next
      case False
      then show ?thesis by (simp add: count_list_0_iff)
    qed
  qed
  have F: "?F = map fst pre @ c # map fst post"
  proof -
    have "map fst ?C = ?F" by (simp add: comp_def)
    then show ?thesis unfolding C using m by simp
  qed
  have "c \<notin> set (map fst pre)"
    using distinct_first_occurrences[of xs] unfolding F by auto
  then have tw: "takeWhile (\<lambda>v. v \<noteq> c) ?F = map fst pre"
    unfolding F by (subst takeWhile_append2) auto
  show "\<forall>c'\<in>set (takeWhile (\<lambda>v. v \<noteq> c) xs). count_list xs c' < count_list xs c"
  proof
    fix c' assume "c' \<in> set (takeWhile (\<lambda>v. v \<noteq> c) xs)"
    then have "c' \<in> set (map fst pre)"
      using takeWhile_first_occurrences[of c xs] tw by simp
    then obtain n where n: "(c', n) \<in> set pre" by auto
    then have "(c', n) \<in> set ?C" unfolding C by simp
    then have "n = count_list xs c'" by auto
    then show "count_list xs c' < count_list xs c" using pre n m by fastforce
  qed
qed

subsection \<open>The category encoding: ranks follow the positive rates\<close>

text \<open>
  The empirical positive rate of a category, in the words of the specification: among
  the samples with that category, the fraction of those with label 1.
\<close>

definition positive_rate :: "'a list \<Rightarrow> int list \<Rightarrow> 'a \<Rightarrow> rat" where
  "positive_rate col sub_y k =
     rat_of_nat (length (filter (\<lambda>(x, l). x = k \<and> l = 1) (zip col sub_y)))
     / rat_of_nat (length (filter (\<lambda>x. x = k) col))"

lemma map_of_map_key:
  "map_of (map (\<lambda>k. (k, f k)) ks) k = (if k \<in> set ks then Some (f k) else None)"
  by (induction ks) auto

lemma map_of_Counter:
  "map_of (Counter xs) k = (if k \<in> set xs then Some (count_list xs k) else None)"
  by (simp add: Counter_eq map_of_map_key)

lemma bool_index_map_pred:
  "bool_index xs (map P ys) = map fst (filter (\<lambda>(x, l). P l) (zip xs ys))"
proof -
  have "zip xs (map P ys) = map (\<lambda>(x, l). (x, P l)) (zip xs ys)"
    by (simp add: zip_map2)
  then show ?thesis
    by (simp add: bool_index_def filter_map comp_def case_prod_unfold)
qed

lemma count_list_map_fst:
  "count_list (map fst zs) k = length (filter (\<lambda>z. fst z = k) zs)"
  by (induction zs) auto

lemma count_clicks:
  "count_list (bool_index col (map (\<lambda>v. v = 1) sub_y)) k
   = length (filter (\<lambda>(x, l). x = k \<and> l = 1) (zip col sub_y))"
proof -
  have "count_list (bool_index col (map (\<lambda>v. v = 1) sub_y)) k
        = length (filter (\<lambda>z. fst z = k) (filter (\<lambda>(x, l). l = 1) (zip col sub_y)))"
    by (simp only: bool_index_map_pred count_list_map_fst)
  also have "\<dots> = length (filter (\<lambda>(x, l). x = k \<and> l = 1) (zip col sub_y))"
    unfolding filter_filter by (rule arg_cong[where f = length], rule filter_cong) auto
  finally show ?thesis .
qed

lemma count_list_length_filter: "count_list xs k = length (filter (\<lambda>x. x = k) xs)"
  by (induction xs) auto

lemma category_ratio_eq:
  "category_ratio col sub_y
   = map (\<lambda>k. (k, positive_rate col sub_y k)) (first_occurrences col)"
proof -
  have 1: "(case map_of (Counter (bool_index col (map (\<lambda>v. v = 1) sub_y))) k of
              Some c \<Rightarrow> c | None \<Rightarrow> 0)
           = length (filter (\<lambda>(x, l). x = k \<and> l = 1) (zip col sub_y))" for k
    using count_clicks[of col sub_y k]
    by (auto simp: map_of_Counter count_list_0_iff)
  show ?thesis
    unfolding category_ratio_def Let_def Counter_eq[of col] 1
    by (simp add: positive_rate_def count_list_length_filter comp_def)
qed

lemma dict_get_map_key: "k \<in> set ks \<Longrightarrow> dict_get (map (\<lambda>k. (k, f k)) ks) k = f k"
  by (simp add: dict_get_def map_of_map_key)

lemma dict_get_ratio:
  "k \<in> set col \<Longrightarrow> dict_get (category_ratio col sub_y) k = positive_rate col sub_y k"
  by (simp add: category_ratio_eq dict_get_map_key)

definition sorted_categories_of :: "'a list \<Rightarrow> int list \<Rightarrow> 'a list" where
  "sorted_categories_of col sub_y =
     sort_key (\<lambda>k. dict_get (category_ratio col sub_y) k)
       (map fst (category_ratio col sub_y))"

lemma categories_map_of_eq:
  "categories_map_of col sub_y
   = zip (sorted_categories_of col sub_y) [0..<length (sorted_categories_of col sub_y)]"
  by (simp add: categories_map_of_def sorted_categories_of_def Let_def)

lemma sorted_categories_props:
  shows "set (sorted_categories_of col sub_y) = set col"
    and "distinct (sorted_categories_of col sub_y)"
    and "sorted (map (positive_rate col sub_y) (sorted_categories_of col sub_y))"
proof -
  let ?r = "category_ratio col sub_y"
  have k: "map fst ?r = first_occurrences col"
    by (simp add: category_ratio_eq comp_def)
  show s: "set (sorted_categories_of col sub_y) = set col"
    by (simp add: sorted_categories_of_def k)
  show "distinct (sorted_categories_of col sub_y)"
    by (simp add: sorted_categories_of_def k)
  have "sorted (map (dict_get ?r) (sorted_categories_of col sub_y))"
    unfolding sorted_categories_of_def by (rule sorted_sort_key)
  moreover have "map (dict_get ?r) (sorted_categories_of col sub_y)
               = map (positive_rate col sub_y) (sorted_categories_of col sub_y)"
    by (rule map_cong) (simp_all add: s dict_get_ratio)
  ultimately show "sorted (map (positive_rate col sub_y) (sorted_categories_of col sub_y))"
    by simp
qed

lemma rank_props:
  assumes "x \<in> set col"
  shows "dict_get (categories_map_of col sub_y) x < length (sorted_categories_of col sub_y)"
    and "sorted_categories_of col sub_y ! dict_get (categories_map_of col sub_y) x = x"
proof -
  let ?sc = "sorted_categories_of col sub_y"
  from assms have "x \<in> set ?sc" by (simp add: sorted_categories_props(1))
  then obtain i where i: "i < length ?sc" "?sc ! i = x" by (auto simp: in_set_conv_nth)
  have "map_of (zip ?sc [0..<length ?sc]) (?sc ! i) = Some ([0..<length ?sc] ! i)"
    by (rule map_of_zip_nth) (simp_all add: sorted_categories_props(2) i(1))
  then have "dict_get (categories_map_of col sub_y) x = i"
    using i by (simp add: dict_get_def categories_map_of_eq)
  then show "dict_get (categories_map_of col sub_y) x < length ?sc"
    and "?sc ! dict_get (categories_map_of col sub_y) x = x"
    using i by simp_all
qed

lemma rank_mono_rate:
  assumes "x \<in> set col" and "x' \<in> set col"
    and "dict_get (categories_map_of col sub_y) x < dict_get (categories_map_of col sub_y) x'"
  shows "positive_rate col sub_y x \<le> positive_rate col sub_y x'"
proof -
  let ?sc = "sorted_categories_of col sub_y"
  let ?i = "dict_get (categories_map_of col sub_y) x"
  let ?j = "dict_get (categories_map_of col sub_y) x'"
  note a = rank_props[OF assms(1), of sub_y] and b = rank_props[OF assms(2), of sub_y]
  have "map (positive_rate col sub_y) ?sc ! ?i \<le> map (positive_rate col sub_y) ?sc ! ?j"
    using sorted_categories_props(3)[of col sub_y] assms(3) b(1)
    by (intro sorted_nth_mono) simp_all
  then show ?thesis using a b by simp
qed

lemma retained_iff:
  assumes "x \<in> set col"
  shows "x \<in> set (map fst (filter (\<lambda>p. rat_of_nat (snd p) < t) (categories_map_of col sub_y)))
         \<longleftrightarrow> rat_of_nat (dict_get (categories_map_of col sub_y) x) < t"
proof -
  let ?sc = "sorted_categories_of col sub_y"
  let ?r = "dict_get (categories_map_of col sub_y) x"
  note a = rank_props[OF assms, of sub_y]
  have d: "distinct ?sc" by (rule sorted_categories_props(2))
  have "x \<in> set (map fst (filter (\<lambda>p. rat_of_nat (snd p) < t) (zip ?sc [0..<length ?sc])))
        \<longleftrightarrow> (\<exists>i<length ?sc. ?sc ! i = x \<and> rat_of_nat i < t)"
    by (auto simp: in_set_zip image_iff) 
  also have "\<dots> \<longleftrightarrow> rat_of_nat ?r < t"
  proof
    assume "\<exists>i<length ?sc. ?sc ! i = x \<and> rat_of_nat i < t"
    then obtain i where i: "i < length ?sc" "?sc ! i = x" "rat_of_nat i < t" by blast
    have "?sc ! i = ?sc ! ?r" using i(2) a(2) by simp
    then have "i = ?r" using nth_eq_iff_index_eq[OF d i(1) a(1)] by blast
    then show "rat_of_nat ?r < t" using i(3) by simp
  next
    assume "rat_of_nat ?r < t"
    then show "\<exists>i<length ?sc. ?sc ! i = x \<and> rat_of_nat i < t" using a by blast
  qed
  finally show ?thesis by (simp add: categories_map_of_eq)
qed

lemma nth_encode:
  "i < length col \<Longrightarrow>
   encode cm col ! i = rat_of_nat (dict_get cm (col ! i))"
  by (simp add: encode_def)

subsection \<open>Routing: the leaf that a sample reaches\<close>

text \<open>
  The test of \<^verbatim>\<open>_predict_node\<close> at a nonterminal node, with its failures, and the path
  (left is \<open>True\<close>) from a node to the leaf that a sample reaches. Two samples reach the
  same leaf exactly when their paths are equal.
\<close>

definition goes_left :: "DecisionTree \<Rightarrow> rat list \<Rightarrow> nat \<Rightarrow> split_value \<Rightarrow> error + bool" where
  "goes_left self x feature_split v =
    (if length (feature_types self) \<le> feature_split then Inl IndexError
     else if feature_types self ! feature_split = ''real'' then
       (if length x \<le> feature_split then Inl IndexError
        else case v of Threshold threshold \<Rightarrow> Inr (x ! feature_split < threshold)
             | Categories _ \<Rightarrow> Inl KeyError)
     else
       (if length x \<le> feature_split then Inl IndexError
        else case v of Categories categories_split \<Rightarrow> Inr (x ! feature_split \<in> set categories_split)
             | Threshold _ \<Rightarrow> Inl KeyError))"

fun leaf_path :: "DecisionTree \<Rightarrow> rat list \<Rightarrow> node \<Rightarrow> error + bool list" where
  "leaf_path self x (Terminal c) = Inr []"
| "leaf_path self x (Nonterminal feature_split v left_child right_child) =
    (case goes_left self x feature_split v of
       Inl e \<Rightarrow> Inl e
     | Inr b \<Rightarrow>
         map_sum id (Cons b) (leaf_path self x (if b then left_child else right_child)))"

lemma predict_node_Nonterminal:
  "predict_node self x (Nonterminal f v l r) =
    (case goes_left self x f v of
       Inl e \<Rightarrow> Inl e
     | Inr b \<Rightarrow> predict_node self x (if b then l else r))"
  by (simp add: goes_left_def split: split_value.splits)

lemma scan_feature_in_set:
  assumes "scan_feature self sub_X sub_y f best = Inr (Some (f', v, g, split))"
  shows "best = Some (f', v, g, split) \<or> f' = f"
  using scan_feature_cases[OF assms] by auto

lemma scan_features_in_set:
  "scan_features self sub_X sub_y fs best = Inr (Some (f', v, g, split)) \<Longrightarrow>
   best = Some (f', v, g, split) \<or> f' \<in> set fs"
proof (induction fs arbitrary: best)
  case Nil
  then show ?case by simp
next
  case (Cons f fs)
  from Cons.prems obtain b1 where
    1: "scan_feature self sub_X sub_y f best = Inr b1" and
    2: "scan_features self sub_X sub_y fs b1 = Inr (Some (f', v, g, split))"
    by (cases "scan_feature self sub_X sub_y f best") simp_all
  from Cons.IH[OF 2] show ?case
  proof
    assume b: "b1 = Some (f', v, g, split)"
    show ?thesis using scan_feature_in_set[OF 1[unfolded b]] by auto
  next
    assume "f' \<in> set fs" then show ?thesis by simp
  qed
qed

lemma shape1_rect:
  "\<forall>row\<in>set sub_X. length row = d \<Longrightarrow> sub_X \<noteq> [] \<Longrightarrow> shape1 sub_X = d"
  by (cases sub_X) (simp_all add: shape1_def)

text \<open>The mask chosen by the feature scan is the test of \<^verbatim>\<open>_predict_node\<close> on each row.\<close>

lemma split_is_goes_left:
  assumes sc: "scan_features self sub_X sub_y [0..<shape1 sub_X] None = Inr (Some (f, v, g, split))"
    and rect: "\<forall>row\<in>set sub_X. length row = d"
    and ft: "feature_types m = feature_types self"
  shows "\<forall>x\<in>set sub_X. \<exists>b. goes_left m x f v = Inr b"
    and "split = map (\<lambda>x. goes_left m x f v = Inr True) sub_X"
proof -
  note s = scan_features_Some[OF sc]
  from s(3) obtain fv cm ths gs t where
    fv: "feature_vector_of (feature_types self ! f) sub_X sub_y f = Inr (fv, cm)" and
    tb: "threshold_best_of (feature_types self ! f) t cm = Inr v" and
    sp: "split = map (\<lambda>x. x < t) fv" by blast
  have "f \<in> set [0..<shape1 sub_X]" using scan_features_in_set[OF sc] by simp
  then have fl: "f < shape1 sub_X" by simp
  then have ne: "sub_X \<noteq> []" by (auto simp: shape1_def)
  have fd: "f < d" using fl shape1_rect[OF rect ne] by simp
  have lx: "\<And>x. x \<in> set sub_X \<Longrightarrow> \<not> length x \<le> f" using rect fd by auto
  from threshold_best_of_Inr[OF tb] show "\<forall>x\<in>set sub_X. \<exists>b. goes_left m x f v = Inr b"
    using s(1) lx by (auto simp: goes_left_def ft)
  from threshold_best_of_Inr[OF tb]
  show "split = map (\<lambda>x. goes_left m x f v = Inr True) sub_X"
  proof
    assume r: "feature_types self ! f = ''real'' \<and> v = Threshold t"
    then have "fv = column sub_X f" using fv by (simp add: feature_vector_of_def)
    then have "split = map (\<lambda>x. x ! f < t) sub_X" using sp by (simp add: column_def comp_def)
    also have "\<dots> = map (\<lambda>x. goes_left m x f v = Inr True) sub_X"
      using s(1) lx r by (intro map_cong) (auto simp: goes_left_def ft)
    finally show ?thesis .
  next
    assume c: "feature_types self ! f = ''categorical'' \<and>
      v = Categories (map fst (filter (\<lambda>x. rat_of_nat (snd x) < t) cm))"
    let ?col = "column sub_X f"
    from c fv have cm: "cm = categories_map_of ?col sub_y" and fve: "fv = encode cm ?col"
      by (auto simp: feature_vector_of_def Let_def split: if_splits)
    have "split = map (\<lambda>k. rat_of_nat (dict_get cm k) < t) ?col"
      using sp fve by (simp add: encode_def comp_def)
    also have "\<dots> = map (\<lambda>k. k \<in> set (map fst (filter (\<lambda>x. rat_of_nat (snd x) < t) cm))) ?col"
      unfolding cm by (rule map_cong[OF refl]) (rule retained_iff[symmetric])
    also have "\<dots> = map (\<lambda>x. x ! f \<in> set (map fst (filter (\<lambda>x. rat_of_nat (snd x) < t) cm))) sub_X"
      by (simp add: column_def comp_def)
    also have "\<dots> = map (\<lambda>x. goes_left m x f v = Inr True) sub_X"
      using s(1) lx c by (intro map_cong) (auto simp: goes_left_def ft)
    finally show ?thesis .
  qed
qed

lemma zip_bool_index:
  assumes "length X = length y"
  shows "zip (bool_index X (map P X)) (bool_index y (map P X)) = filter (\<lambda>(x, c). P x) (zip X y)"
  using assms
proof (induction X y rule: list_induct2)
  case Nil
  then show ?case by (simp add: bool_index_def)
next
  case (Cons x xs c cs)
  then show ?case by (simp add: bool_index_def)
qed

lemma fit_node_routes:
  assumes "fit_node self X y = Inr (t, s')" and "length X = length y"
    and "\<forall>row\<in>set X. length row = d" and "feature_types m = feature_types self"
  shows "\<forall>(x, c)\<in>set (zip X y). \<exists>(x', c')\<in>set (zip X y).
           leaf_path m x' t = leaf_path m x t \<and> (\<exists>p. leaf_path m x t = Inr p) \<and>
           predict_node m x t = Inr c'"
  using assms
proof (induction "length y" arbitrary: self X y t s' rule: less_induct)
  case less
  note fit = less.prems(1) and len = less.prems(2) and rect = less.prems(3) and ft = less.prems(4)
  have terminal: ?case if t: "t = Terminal c0" and c0: "c0 \<in> set y" for c0
  proof -
    from c0 obtain i where i: "i < length y" "y ! i = c0" by (auto simp: in_set_conv_nth)
    then have "(X ! i, c0) \<in> set (zip X y)" using len by (auto simp: in_set_zip)
    then show ?thesis using t by fastforce
  qed
  show ?case
  proof (cases self X y rule: fit_node_cases)
    case empty
    then show ?thesis using fit by simp
  next
    case pure
    then have "t = Terminal (y ! 0)" "y ! 0 \<in> set y" using fit by simp_all
    then show ?thesis by (rule terminal)
  next
    case size
    from size(4) fit obtain c0 where c0: "most_common_1 y = Inr c0" "t = Terminal c0"
      by (auto split: sum.splits)
    show ?thesis by (rule terminal[OF c0(2) most_common_1_spec(1)[OF c0(1)]])
  next
    case (scan_error e)
    then show ?thesis using fit by simp
  next
    case no_candidate
    from no_candidate(5) fit obtain c0 where c0: "most_common_1 y = Inr c0" "t = Terminal c0"
      by (auto split: sum.splits)
    show ?thesis by (rule terminal[OF c0(2) most_common_1_spec(1)[OF c0(1)]])
  next
    case (bad_best f v g split e)
    then show ?thesis using fit by simp
  next
    case (split f v g split)
    let ?P = "\<lambda>x. goes_left m x f v = Inr True"
    let ?XL = "bool_index X split" and ?yL = "bool_index y split"
    let ?XR = "bool_index X (map Not split)" and ?yR = "bool_index y (map Not split)"
    note sh = scan_shrinks[OF split(4,7)]
    from fit split(8) obtain l s1 r where
      L: "fit_node (self\<lparr>depth := depth self + 1\<rparr>) ?XL ?yL = Inr (l, s1)" and
      R: "fit_node s1 ?XR ?yR = Inr (r, s')" and
      t: "t = Nonterminal f v l r"
      by (auto split: sum.splits prod.splits)
    note sg = split_is_goes_left[OF split(4) rect ft]
    have ns: "map Not split = map (\<lambda>x. \<not> ?P x) X" by (subst sg(2)) (simp add: comp_def)
    have zL: "zip ?XL ?yL = filter (\<lambda>(x, c). ?P x) (zip X y)"
      by (subst (1 2) sg(2)) (rule zip_bool_index[OF len])
    have zR: "zip ?XR ?yR = filter (\<lambda>(x, c). \<not> ?P x) (zip X y)"
      unfolding ns by (rule zip_bool_index[OF len])
    have ls: "length split = length X" by (subst sg(2)) simp
    have lL: "length ?XL = length ?yL"
      using ls len by (intro length_bool_index_same) simp_all
    have lR: "length ?XR = length ?yR"
      using ls len by (intro length_bool_index_same) simp_all
    have rL: "\<forall>row\<in>set ?XL. length row = d"
      using rect set_bool_index_subset[of X split] by auto
    have rR: "\<forall>row\<in>set ?XR. length row = d"
      using rect set_bool_index_subset[of X "map Not split"] by auto
    have s1: "s1 = self\<lparr>depth := depth self + 1\<rparr>\<lparr>depth := depth s1\<rparr>"
      by (rule fit_node_changes_depth_only[OF L])
    have f1: "feature_types m = feature_types s1" by (subst s1) (simp add: ft)
    have f0: "feature_types m = feature_types (self\<lparr>depth := depth self + 1\<rparr>)"
      by (simp add: ft)
    note IL = less.hyps[OF sh(1) L lL rL f0, unfolded zL]
    note IR = less.hyps[OF sh(2) R lR rR f1, unfolded zR]
    show ?thesis
    proof (intro ballI, clarify)
      fix x c assume xc: "(x, c) \<in> set (zip X y)"
      then have xX: "x \<in> set X" by (rule set_zip_leftD)
      show "\<exists>(x', c')\<in>set (zip X y).
           leaf_path m x' t = leaf_path m x t \<and> (\<exists>p. leaf_path m x t = Inr p) \<and>
           predict_node m x t = Inr c'"
      proof (cases "?P x")
        case True
        then have "(x, c) \<in> set (filter (\<lambda>(x, c). ?P x) (zip X y))" using xc by simp
        from IL[rule_format, OF this] obtain x' c' where
          m': "(x', c') \<in> set (zip X y)" "?P x'" and
          p: "leaf_path m x' l = leaf_path m x l" "\<exists>p. leaf_path m x l = Inr p"
            "predict_node m x l = Inr c'"
          by auto
        have "leaf_path m x' t = leaf_path m x t" "\<exists>p. leaf_path m x t = Inr p"
          "predict_node m x t = Inr c'"
          using True m'(2) p by (auto simp: t predict_node_Nonterminal simp del: predict_node.simps(2))
        then show ?thesis using m'(1) by blast
      next
        case False
        from sg(1) xX obtain b where b: "goes_left m x f v = Inr b" by blast
        then have bF: "goes_left m x f v = Inr False" using False by (cases b) simp_all
        have "(x, c) \<in> set (filter (\<lambda>(x, c). \<not> ?P x) (zip X y))" using xc False by simp
        from IR[rule_format, OF this] obtain x' c' where
          m': "(x', c') \<in> set (zip X y)" "\<not> ?P x'" and
          p: "leaf_path m x' r = leaf_path m x r" "\<exists>p. leaf_path m x r = Inr p"
            "predict_node m x r = Inr c'"
          by auto
        have "x' \<in> set X" using m'(1) by (rule set_zip_leftD)
        with sg(1) obtain b' where "goes_left m x' f v = Inr b'" by blast
        then have bF': "goes_left m x' f v = Inr False" using m'(2) by (cases b') simp_all
        have "leaf_path m x' t = leaf_path m x t" "\<exists>p. leaf_path m x t = Inr p"
          "predict_node m x t = Inr c'"
          using bF bF' p by (auto simp: t predict_node_Nonterminal simp del: predict_node.simps(2))
        then show ?thesis using m'(1) by blast
      qed
    qed
  qed
qed

lemma predict_rows_all:
  assumes "length X = length y"
    and "\<forall>(x, c)\<in>set (zip X y). predict_node m x t = Inr c"
  shows "predict_rows m t X = Inr y"
  using assms
proof (induction X y rule: list_induct2)
  case Nil
  then show ?case by simp
next
  case (Cons x xs c cs)
  then show ?case by simp
qed

subsection \<open>The order of equal feature values does not matter\<close>

text \<open>
  \<^verbatim>\<open>np.argsort\<close> with its default sort leaves the order of equal feature values open.
  The result of \<^verbatim>\<open>find_best_split\<close> is the same for every arrangement \<open>ps\<close> of the
  samples in ascending order of the feature value, so the stable sort of the model stands
  for all of them.
\<close>

lemma take_eq_filter_le:
  assumes "sorted (map fst ps)" and "Suc i < length ps" and "fst (ps ! i) < fst (ps ! Suc i)"
  shows "take (Suc i) ps = filter (\<lambda>p. fst p \<le> fst (ps ! i)) ps"
proof -
  have t: "\<forall>p\<in>set (take (Suc i) ps). fst p \<le> fst (ps ! i)"
  proof
    fix p assume "p \<in> set (take (Suc i) ps)"
    then obtain j where j: "j < Suc i" "j < length ps" "p = ps ! j"
      by (auto simp: in_set_conv_nth)
    have "map fst ps ! j \<le> map fst ps ! i"
      using assms(1,2) j(1) by (intro sorted_nth_mono) simp_all
    then show "fst p \<le> fst (ps ! i)" using j assms(2) by simp
  qed
  have d: "\<forall>p\<in>set (drop (Suc i) ps). \<not> fst p \<le> fst (ps ! i)"
  proof
    fix p assume "p \<in> set (drop (Suc i) ps)"
    then obtain j where j: "j < length ps - Suc i" "p = ps ! (Suc i + j)"
      by (auto simp: in_set_conv_nth)
    have "map fst ps ! Suc i \<le> map fst ps ! (Suc i + j)"
      using assms(1) j(1) by (intro sorted_nth_mono) simp_all
    then have "fst (ps ! Suc i) \<le> fst p" using j assms(2) by simp
    then show "\<not> fst p \<le> fst (ps ! i)" using assms(3) by simp
  qed
  have "filter (\<lambda>p. fst p \<le> fst (ps ! i)) ps
        = filter (\<lambda>p. fst p \<le> fst (ps ! i)) (take (Suc i) ps @ drop (Suc i) ps)"
    by simp
  also have "\<dots> = take (Suc i) ps"
    unfolding filter_append using t d by (simp add: filter_empty_conv)
  finally show ?thesis by simp
qed

lemma sum_list_snd_filter_mset:
  "sum_list (map snd (filter P ps)) = sum_mset (image_mset snd (filter_mset P (mset ps)))"
  by (induction ps) simp_all

lemma gini_all_perm:
  assumes m: "mset ps = mset qs" and sp: "sorted (map fst ps)" and sq: "sorted (map fst qs)"
    and i: "Suc i < length ps" and c: "map fst ps ! i \<noteq> map fst ps ! Suc i"
  shows "gini_all (map snd ps) ! i = gini_all (map snd qs) ! i"
proof -
  have l: "length ps = length qs" using m by (rule mset_eq_length)
  have "mset (map fst ps) = mset (map fst qs)" using m by (metis mset_map)
  then have f: "map fst ps = map fst qs"
    using sp sq by (metis properties_for_sort)
  have lt: "fst (ps ! i) < fst (ps ! Suc i)"
  proof -
    have "map fst ps ! i \<le> map fst ps ! Suc i"
      using sp i by (intro sorted_nth_mono) simp_all
    then show ?thesis using c i by simp
  qed
  have fi: "fst (qs ! i) = fst (ps ! i)" "fst (qs ! Suc i) = fst (ps ! Suc i)"
    using f i l by (metis Suc_lessD nth_map)+
  have tp: "take (Suc i) ps = filter (\<lambda>p. fst p \<le> fst (ps ! i)) ps"
    by (rule take_eq_filter_le[OF sp i lt])
  have tq: "take (Suc i) qs = filter (\<lambda>p. fst p \<le> fst (ps ! i)) qs"
    using take_eq_filter_le[OF sq, of i] i l lt fi by simp
  have s1: "sum_list (take (Suc i) (map snd ps)) = sum_list (take (Suc i) (map snd qs))"
    unfolding take_map tp tq sum_list_snd_filter_mset m ..
  have "sum_list (map snd ps) = sum_mset (image_mset snd (mset ps))"
    by (metis mset_map sum_mset_sum_list)
  also have "\<dots> = sum_list (map snd qs)"
    unfolding m by (metis mset_map sum_mset_sum_list)
  finally have s2: "sum_list (map snd ps) = sum_list (map snd qs)" .
  have "Suc i < length (map snd ps)" "Suc i < length (map snd qs)" using i l by simp_all
  then show ?thesis
    by (simp add: nth_gini_all s1 s2 l)
qed

lemma find_best_split_sorted_perm:
  assumes m: "mset ps = mset qs" and sp: "sorted (map fst ps)" and sq: "sorted (map fst qs)"
  shows "find_best_split_sorted ps = find_best_split_sorted qs"
proof -
  have l: "length ps = length qs" using m by (rule mset_eq_length)
  have "mset (map fst ps) = mset (map fst qs)" using m by (metis mset_map)
  then have f: "map fst ps = map fst qs"
    using sp sq by (metis properties_for_sort)
  let ?J = "filter (\<lambda>i. map fst ps ! i \<noteq> map fst ps ! Suc i) [0..<length (map fst ps) - 1]"
  have "bool_index (gini_all (map snd ps)) (change_mask (map fst ps))
      = map (\<lambda>i. gini_all (map snd ps) ! i) ?J"
    by (rule ginis_eq) simp
  also have "\<dots> = map (\<lambda>i. gini_all (map snd qs) ! i) ?J"
  proof (rule map_cong[OF refl])
    fix i assume "i \<in> set ?J"
    then have "Suc i < length ps" "map fst ps ! i \<noteq> map fst ps ! Suc i" by auto
    then show "gini_all (map snd ps) ! i = gini_all (map snd qs) ! i"
      by (rule gini_all_perm[OF m sp sq])
  qed
  also have "\<dots> = bool_index (gini_all (map snd qs)) (change_mask (map fst qs))"
    unfolding f by (rule ginis_eq[symmetric]) simp
  finally have g: "bool_index (gini_all (map snd ps)) (change_mask (map fst ps))
      = bool_index (gini_all (map snd qs)) (change_mask (map fst qs))" .
  have e: "ps = [] \<longleftrightarrow> qs = []" using l by auto
  show ?thesis
    unfolding find_best_split_sorted_def Let_def f g[unfolded f] using e by simp
qed

lemma find_best_split_any_argsort:
  assumes "mset ps = mset (zip feature_vector target_vector)" and "sorted (map fst ps)"
    and "length feature_vector \<le> length target_vector"
  shows "find_best_split_sorted ps = find_best_split feature_vector target_vector"
proof -
  have "find_best_split_sorted ps
        = find_best_split_sorted (argsort_pairs feature_vector target_vector)"
    by (rule find_best_split_sorted_perm) (simp_all add: assms(1,2) argsort_pairs_def)
  then show ?thesis using assms(3) by (simp add: find_best_split_def)
qed

section \<open>The claims\<close>

text \<open>A model with one real feature and the default parameters, for the closed instances.\<close>

definition model_real :: DecisionTree where
  "model_real = \<lparr>tree = None, feature_types = [''real''], max_depth = None,
                 min_samples_split = 2, min_samples_leaf = None, depth = 0\<rparr>"

definition model_categorical :: DecisionTree where
  "model_categorical = \<lparr>tree = None, feature_types = [''categorical''], max_depth = None,
                        min_samples_split = 2, min_samples_leaf = None, depth = 0\<rparr>"

subsection \<open>C6: the pure-label stop\<close>

text \<open>
  C6. When all labels of the subset are the same label \<open>c\<close> (in particular all 0 or
  all 1), \<^verbatim>\<open>_fit_node\<close> produces the single node \<open>Terminal c\<close> and leaves the object
  unchanged. The result does not depend on the matrix or on the feature types, not even
  on their being well formed: the feature scan, and with it \<^verbatim>\<open>find_best_split\<close>, is not
  reached.
\<close>

theorem pure_label_stop:
  assumes "sub_y \<noteq> []" and "\<forall>v\<in>set sub_y. v = c"
  shows "fit_node self sub_X sub_y = Inr (Terminal c, self)"
proof -
  have "sub_y ! 0 \<in> set sub_y" using assms(1) by simp
  then have c: "sub_y ! 0 = c" using assms(2) by blast
  have "list_all (\<lambda>v. v = sub_y ! 0) sub_y" using assms(2) c by (simp add: list_all_iff)
  then show ?thesis using assms(1) c by (simp add: fit_node.simps)
qed

theorem pure_label_stop_witness:
  "[1, 1] \<noteq> ([] :: int list) \<and>
   fit_node model_real [[0], [5]] [1, 1] = Inr (Terminal 1, model_real)"
  using pure_label_stop[of "[1, 1]" 1 model_real "[[0], [5]]"] by simp

subsection \<open>C4: a constant feature never reaches \<^verbatim>\<open>find_best_split\<close>\<close>

text \<open>
  C4. \<^verbatim>\<open>find_best_split\<close> fails on a constant vector: it raises the error of
  \<^verbatim>\<open>np.argmax\<close> on an empty sequence exactly when the feature vector is non-empty and
  constant (and the target vector is long enough to be indexed). The feature scan skips a
  feature whose (possibly category-encoded) vector is constant on the subset: the state of
  the scan is returned unchanged, although a call of \<^verbatim>\<open>find_best_split\<close> on that vector
  would raise. Hence neither the scan nor \<^verbatim>\<open>_fit_node\<close> nor \<^verbatim>\<open>fit\<close> ever raises that
  error, on any input: no call made during fitting receives a constant vector.
\<close>

theorem constant_feature_skipped:
  "(find_best_split fv tv = Inl ValueError_argmax \<longleftrightarrow>
      fv \<noteq> [] \<and> length fv \<le> length tv \<and> list_all (\<lambda>v. v = fv ! 0) fv) \<and>
   (f < length (feature_types self) \<and>
    feature_vector_of (feature_types self ! f) sub_X sub_y f = Inr (feature_vector, cm) \<and>
    feature_vector \<noteq> [] \<and> list_all (\<lambda>v. v = feature_vector ! 0) feature_vector
      \<longrightarrow> scan_feature self sub_X sub_y f best = Inr best) \<and>
   scan_features self sub_X sub_y fs best \<noteq> Inl ValueError_argmax \<and>
   fit_node self sub_X sub_y \<noteq> Inl ValueError_argmax \<and>
   fit self sub_X sub_y \<noteq> Inl ValueError_argmax"
proof (intro conjI impI)
  show "find_best_split fv tv = Inl ValueError_argmax \<longleftrightarrow>
      fv \<noteq> [] \<and> length fv \<le> length tv \<and> list_all (\<lambda>v. v = fv ! 0) fv"
    by (rule find_best_split_Inl_argmax_iff)
  show "scan_features self sub_X sub_y fs best \<noteq> Inl ValueError_argmax"
    by (rule scan_features_not_argmax)
  show n: "fit_node self sub_X sub_y \<noteq> Inl ValueError_argmax"
    by (rule fit_node_not_argmax)
  show "fit self sub_X sub_y \<noteq> Inl ValueError_argmax"
    using n by (auto simp: fit_def split: sum.splits)
next
  assume "f < length (feature_types self) \<and>
    feature_vector_of (feature_types self ! f) sub_X sub_y f = Inr (feature_vector, cm) \<and>
    feature_vector \<noteq> [] \<and> list_all (\<lambda>v. v = feature_vector ! 0) feature_vector"
  then show "scan_feature self sub_X sub_y f best = Inr best"
    using scan_feature_constant[of f self sub_X sub_y feature_vector cm best] by blast
qed

theorem constant_feature_skipped_witness:
  "find_best_split [1, 1, 1] [0, 1, 0] = Inl ValueError_argmax \<and>
   scan_feature model_real [[1], [1], [1]] [0, 1, 0] 0 None = Inr None \<and>
   fit_node model_real [[1], [1], [1]] [0, 1, 0] = Inr (Terminal 0, model_real)"
proof -
  have fts: "feature_types model_real = [''real'']" by (simp add: model_real_def)
  have fv: "feature_vector_of ''real'' [[1], [1], [1]] [0, 1, 0] 0 = Inr ([1, 1, 1], [])"
    by (simp add: feature_vector_of_def column_def)
  note t = constant_feature_skipped[of "[1, 1, 1]" "[0, 1, 0]" 0 model_real "[[1], [1], [1]]"
      "[0, 1, 0]" "[1, 1, 1]" "[]" None "[]"]
  have 1: "find_best_split [1, 1, 1] [0, 1, 0] = Inl ValueError_argmax"
    using t by simp
  have 2: "scan_feature model_real [[1], [1], [1]] [0, 1, 0] 0 None = Inr None"
    using t fts fv by simp
  have 3: "fit_node model_real [[1], [1], [1]] [0, 1, 0] = Inr (Terminal 0, model_real)"
    by code_simp
  show ?thesis using 1 2 3 by simp
qed

subsection \<open>C9: \<^verbatim>\<open>max_depth\<close> and \<^verbatim>\<open>min_samples_leaf\<close> are inert\<close>

text \<open>
  C9. Two models constructed with the same feature types and the same
  \<^verbatim>\<open>min_samples_split\<close>, and with any values of \<^verbatim>\<open>max_depth\<close> and
  \<^verbatim>\<open>min_samples_leaf\<close>, behave alike on every training set: \<^verbatim>\<open>fit\<close> raises the same
  error on both or produces the same tree on both, and after fitting \<^verbatim>\<open>predict\<close> gives
  the same result on every input.
\<close>

theorem hyperparameters_inert:
  assumes "DecisionTree_init ftypes max_depth1 msplit min_samples_leaf1 = Inr m1"
    and "DecisionTree_init ftypes max_depth2 msplit min_samples_leaf2 = Inr m2"
  shows "map_sum id tree (fit m1 X y) = map_sum id tree (fit m2 X y) \<and>
         (\<forall>m1' m2'. fit m1 X y = Inr m1' \<and> fit m2 X y = Inr m2'
            \<longrightarrow> tree m1' = tree m2' \<and> predict m1' Z = predict m2' Z)"
proof -
  have ft: "feature_types m1 = feature_types m2"
    and ms: "min_samples_split m1 = min_samples_split m2"
    using assms by (auto simp: DecisionTree_init_def split: if_splits)
  note n = fit_node_inert[OF ft ms, of X y]
  have t: "map_sum id tree (fit m1 X y) = map_sum id tree (fit m2 X y)"
  proof (cases "fit_node m1 X y")
    case (Inl e)
    then have "fit_node m2 X y = Inl e" using n by (cases "fit_node m2 X y") simp_all
    then show ?thesis using Inl by (simp add: fit_def)
  next
    case (Inr p)
    obtain t s1 where p: "p = (t, s1)" by (cases p)
    from Inr p n obtain s2 where "fit_node m2 X y = Inr (t, s2)"
      by (cases "fit_node m2 X y") auto
    then show ?thesis using Inr p by (simp add: fit_def)
  qed
  have "tree m1' = tree m2' \<and> predict m1' Z = predict m2' Z"
    if f: "fit m1 X y = Inr m1'" "fit m2 X y = Inr m2'" for m1' m2'
  proof -
    from f(1) obtain t1 s1 where 1: "fit_node m1 X y = Inr (t1, s1)" "m1' = s1\<lparr>tree := Some t1\<rparr>"
      by (auto simp: fit_def split: sum.splits)
    from f(2) obtain t2 s2 where 2: "fit_node m2 X y = Inr (t2, s2)" "m2' = s2\<lparr>tree := Some t2\<rparr>"
      by (auto simp: fit_def split: sum.splits)
    have tt: "t1 = t2" using n 1(1) 2(1) by simp
    have "s1 = m1\<lparr>depth := depth s1\<rparr>" "s2 = m2\<lparr>depth := depth s2\<rparr>"
      using fit_node_changes_depth_only 1(1) 2(1) by blast+
    then have "feature_types s1 = feature_types m1" "feature_types s2 = feature_types m2"
      by (metis DecisionTree.select_convs(2) DecisionTree.surjective DecisionTree.update_convs(6))+
    then have "feature_types m1' = feature_types m2'" using ft 1(2) 2(2) by simp
    then have "predict_rows m1' t1 Z = predict_rows m2' t1 Z" by (rule predict_rows_cong)
    then show ?thesis using tt 1(2) 2(2) by (simp add: predict_def)
  qed
  with t show ?thesis by blast
qed


theorem hyperparameters_inert_witness:
  "map_sum id tree (fit model_real [[1], [2], [2], [3]] [0, 1, 1, 1]) =
   map_sum id tree
     (fit (model_real\<lparr>max_depth := Some 1, min_samples_leaf := Some 5\<rparr>)
        [[1], [2], [2], [3]] [0, 1, 1, 1]) \<and>
   map_sum id tree (fit model_real [[1], [2], [2], [3]] [0, 1, 1, 1]) =
   Inr (Some (Nonterminal 0 (Threshold (3 / 2)) (Terminal 0) (Terminal 1)))"
proof -
  have 1: "DecisionTree_init [''real''] None 2 None = Inr model_real"
    by (simp add: DecisionTree_init_def model_real_def)
  have 2: "DecisionTree_init [''real''] (Some 1) 2 (Some 5)
           = Inr (model_real\<lparr>max_depth := Some 1, min_samples_leaf := Some 5\<rparr>)"
    by (simp add: DecisionTree_init_def model_real_def)
  have 3: "map_sum id tree (fit model_real [[1], [2], [2], [3]] [0, 1, 1, 1]) =
     Inr (Some (Nonterminal 0 (Threshold (3 / 2)) (Terminal 0) (Terminal 1)))"
    by code_simp
  from hyperparameters_inert[OF 1 2, of "[[1], [2], [2], [3]]" "[0, 1, 1, 1]"] 3
  show ?thesis by blast
qed

subsection \<open>C10: both sides of a split are non-empty, and \<^verbatim>\<open>_fit_node\<close> terminates\<close>



subsection \<open>C2: the thresholds\<close>



subsection \<open>C3: the best split\<close>



subsection \<open>C1: the Gini values are the weighted criterion\<close>



subsection \<open>C5: the size stop\<close>

text \<open>
  C5. When the labels of the subset are not all the same and the number of samples is at
  most \<^verbatim>\<open>min_samples_split\<close> (in particular exactly \<^verbatim>\<open>min_samples_split\<close>),
  \<^verbatim>\<open>_fit_node\<close> produces a single Terminal node and leaves the object unchanged. Its label
  \<open>c\<close> is a majority label: no label occurs more often, and every label that occurs in
  the subset before the first occurrence of \<open>c\<close> occurs strictly less often (a tie goes to
  the label met first). The result does not depend on the matrix or on the feature
  types, so no split search takes place, whether or not a valid split exists.
\<close>

theorem size_stop:
  assumes "\<exists>v\<in>set sub_y. v \<noteq> sub_y ! 0"
    and "int (length sub_y) \<le> min_samples_split self"
  shows "\<exists>c. fit_node self sub_X sub_y = Inr (Terminal c, self) \<and>
             most_common_1 sub_y = Inr c \<and> c \<in> set sub_y \<and>
             (\<forall>c'. count_list sub_y c' \<le> count_list sub_y c) \<and>
             (\<forall>c'\<in>set (takeWhile (\<lambda>v. v \<noteq> c) sub_y).
                 count_list sub_y c' < count_list sub_y c)"
proof -
  have ne: "sub_y \<noteq> []" using assms(1) by auto
  have np: "\<not> list_all (\<lambda>v. v = sub_y ! 0) sub_y" using assms(1) by (auto simp: list_all_iff)
  from most_common_1_succeeds[OF ne] obtain c where c: "most_common_1 sub_y = Inr c" by blast
  have "fit_node self sub_X sub_y = Inr (Terminal c, self)"
    using ne np assms(2) c by (simp add: fit_node.simps)
  then show ?thesis using c most_common_1_spec[OF c] by blast
qed

theorem size_stop_witness:
  "fit_node model_real [[1], [2]] [0, 1] = Inr (Terminal 0, model_real) \<and>
   fit_node model_real [[1], [2]] [1, 0] = Inr (Terminal 1, model_real) \<and>
   fit_node (model_real\<lparr>min_samples_split := 1\<rparr>) [[1], [2]] [0, 1]
     = Inr (Nonterminal 0 (Threshold (3 / 2)) (Terminal 0) (Terminal 1),
            model_real\<lparr>min_samples_split := 1, depth := 1\<rparr>)"
proof -
  have m: "min_samples_split model_real = 2" by (simp add: model_real_def)
  have a: "\<exists>v\<in>set [0, 1 :: int]. v \<noteq> [0, 1] ! 0" "int (length [0, 1 :: int]) \<le> min_samples_split model_real"
    by (simp_all add: m)
  have b: "\<exists>v\<in>set [1, 0 :: int]. v \<noteq> [1, 0] ! 0" "int (length [1, 0 :: int]) \<le> min_samples_split model_real"
    by (simp_all add: m)
  have 1: "most_common_1 [0, 1 :: int] = Inr 0" "most_common_1 [1, 0 :: int] = Inr 1"
    by code_simp+
  from size_stop[OF a, of "[[1], [2]]"] 1(1)
  have 2: "fit_node model_real [[1], [2]] [0, 1] = Inr (Terminal 0, model_real)" by auto
  from size_stop[OF b, of "[[1], [2]]"] 1(2)
  have 3: "fit_node model_real [[1], [2]] [1, 0] = Inr (Terminal 1, model_real)" by auto
  have 4: "fit_node (model_real\<lparr>min_samples_split := 1\<rparr>) [[1], [2]] [0, 1]
     = Inr (Nonterminal 0 (Threshold (3 / 2)) (Terminal 0) (Terminal 1),
            model_real\<lparr>min_samples_split := 1, depth := 1\<rparr>)"
    by code_simp
  show ?thesis using 2 3 4 by simp
qed

subsection \<open>C7: the categorical split and the positive rates\<close>

text \<open>
  C7, as stated, fails when two categories have the same positive rate: the stable sort
  ranks them in the order of their first occurrence, and a threshold may fall between
  them. With the categories 1, 1, 2, 2 and the labels 0, 1, 0, 1 both categories have the
  rate 1/2; the only threshold, 1/2 on the ranks, sends category 1 to the left and
  category 2 to the right, which no cutoff on the rate does.
\<close>

theorem categorical_rate_tie_counterexample:
  "find_best_split (encode (categories_map_of [1, 1, 2, 2 :: rat] [0, 1, 0, 1]) [1, 1, 2, 2])
      [0, 1, 0, 1] = Inr ([1 / 2], [- (1 / 2)], 1 / 2, - (1 / 2)) \<and>
   fit_node model_categorical [[1], [1], [2], [2]] [0, 1, 0, 1]
     = Inr (Nonterminal 0 (Categories [1]) (Terminal 0) (Terminal 0),
            model_categorical\<lparr>depth := 1\<rparr>) \<and>
   encode (categories_map_of [1, 1, 2, 2 :: rat] [0, 1, 0, 1]) [1, 1, 2, 2] ! 0 < 1 / 2 \<and>
   \<not> encode (categories_map_of [1, 1, 2, 2 :: rat] [0, 1, 0, 1]) [1, 1, 2, 2] ! 2 < 1 / 2 \<and>
   positive_rate [1, 1, 2, 2 :: rat] [0, 1, 0, 1] ([1, 1, 2, 2] ! 0)
     = positive_rate [1, 1, 2, 2 :: rat] [0, 1, 0, 1] ([1, 1, 2, 2] ! 2) \<and>
   \<not> (\<exists>cutoff. \<forall>i<4.
         encode (categories_map_of [1, 1, 2, 2 :: rat] [0, 1, 0, 1]) [1, 1, 2, 2] ! i < 1 / 2
         \<longleftrightarrow> positive_rate [1, 1, 2, 2 :: rat] [0, 1, 0, 1] ([1, 1, 2, 2] ! i) < cutoff)"
proof -
  have e: "encode (categories_map_of [1, 1, 2, 2 :: rat] [0, 1, 0, 1]) [1, 1, 2, 2] = [0, 0, 1, 1]"
    by code_simp
  have r: "positive_rate [1, 1, 2, 2 :: rat] [0, 1, 0, 1] 1 = 1 / 2"
    "positive_rate [1, 1, 2, 2 :: rat] [0, 1, 0, 1] 2 = 1 / 2"
    by code_simp+
  have 1: "find_best_split [0, 0, 1, 1] [0, 1, 0, 1] = Inr ([1 / 2], [- (1 / 2)], 1 / 2, - (1 / 2))"
    by code_simp
  have 2: "fit_node model_categorical [[1], [1], [2], [2]] [0, 1, 0, 1]
     = Inr (Nonterminal 0 (Categories [1]) (Terminal 0) (Terminal 0),
            model_categorical\<lparr>depth := 1\<rparr>)"
    by code_simp
  have 3: "\<not> (\<exists>cutoff. \<forall>i<4. [0, 0, 1, 1 :: rat] ! i < 1 / 2
         \<longleftrightarrow> positive_rate [1, 1, 2, 2 :: rat] [0, 1, 0, 1] ([1, 1, 2, 2] ! i) < cutoff)"
  proof
    assume "\<exists>cutoff. \<forall>i<4. [0, 0, 1, 1 :: rat] ! i < 1 / 2
         \<longleftrightarrow> positive_rate [1, 1, 2, 2 :: rat] [0, 1, 0, 1] ([1, 1, 2, 2] ! i) < cutoff"
    then obtain c where c: "\<forall>i<4. [0, 0, 1, 1 :: rat] ! i < 1 / 2
         \<longleftrightarrow> positive_rate [1, 1, 2, 2 :: rat] [0, 1, 0, 1] ([1, 1, 2, 2] ! i) < c" by blast
    have "(0::nat) < 4" "(2::nat) < 4" by simp_all
    with c have "[0, 0, 1, 1 :: rat] ! 0 < 1 / 2
         \<longleftrightarrow> positive_rate [1, 1, 2, 2 :: rat] [0, 1, 0, 1] ([1, 1, 2, 2] ! 0) < c"
      "[0, 0, 1, 1 :: rat] ! 2 < 1 / 2
         \<longleftrightarrow> positive_rate [1, 1, 2, 2 :: rat] [0, 1, 0, 1] ([1, 1, 2, 2] ! 2) < c"
      by blast+
    then show False by (simp add: r)
  qed
  show ?thesis unfolding e using 1 2 3 by (simp add: r)
qed

text \<open>
  C7, amended. For a categorical column, its labels and any threshold on the ranks:
  a sample goes left (its rank is below the threshold) exactly when its category is in the
  list of categories that the node retains; the category of a sample that goes left never
  has a larger positive rate than the category of a sample that goes right; and the
  partition is the partition by a cutoff on the positive rate exactly when no category on
  the left has the same positive rate as a category on the right (in particular when the
  rates of the categories are pairwise distinct).
\<close>

theorem categorical_split_follows_rate:
  fixes col :: "'a list" and sub_y :: "int list" and threshold :: rat
  defines "cm \<equiv> categories_map_of col sub_y"
    and "n \<equiv> length col"
  defines "to_left \<equiv> (\<lambda>i. encode cm col ! i < threshold)"
    and "rate \<equiv> (\<lambda>i. positive_rate col sub_y (col ! i))"
  shows "(\<forall>i<n. to_left i \<longleftrightarrow>
            col ! i \<in> set (map fst (filter (\<lambda>p. rat_of_nat (snd p) < threshold) cm))) \<and>
         (\<forall>i<n. \<forall>j<n. to_left i \<and> \<not> to_left j \<longrightarrow> rate i \<le> rate j) \<and>
         ((\<exists>cutoff. \<forall>i<n. to_left i \<longleftrightarrow> rate i < cutoff) \<longleftrightarrow>
          (\<forall>i<n. \<forall>j<n. to_left i \<and> \<not> to_left j \<longrightarrow> rate i \<noteq> rate j))"
proof (intro conjI)
  have gl: "to_left i \<longleftrightarrow> rat_of_nat (dict_get cm (col ! i)) < threshold" if "i < n" for i
    using that by (simp add: to_left_def n_def nth_encode)
  show "\<forall>i<n. to_left i \<longleftrightarrow>
            col ! i \<in> set (map fst (filter (\<lambda>p. rat_of_nat (snd p) < threshold) cm))"
  proof (intro allI impI)
    fix i assume i: "i < n"
    then have "col ! i \<in> set col" by (simp add: n_def)
    from retained_iff[OF this, of threshold sub_y] gl[OF i]
    show "to_left i \<longleftrightarrow>
            col ! i \<in> set (map fst (filter (\<lambda>p. rat_of_nat (snd p) < threshold) cm))"
      by (simp add: cm_def)
  qed
  show mono: "\<forall>i<n. \<forall>j<n. to_left i \<and> \<not> to_left j \<longrightarrow> rate i \<le> rate j"
  proof (intro allI impI)
    fix i j assume i: "i < n" and j: "j < n" and lr: "to_left i \<and> \<not> to_left j"
    have "rat_of_nat (dict_get cm (col ! i)) < rat_of_nat (dict_get cm (col ! j))"
      using lr gl[OF i] gl[OF j] by simp
    then have "dict_get cm (col ! i) < dict_get cm (col ! j)" by simp
    moreover have "col ! i \<in> set col" "col ! j \<in> set col" using i j by (simp_all add: n_def)
    ultimately show "rate i \<le> rate j"
      unfolding rate_def cm_def by (intro rank_mono_rate)
  qed
  show "(\<exists>cutoff. \<forall>i<n. to_left i \<longleftrightarrow> rate i < cutoff) \<longleftrightarrow>
          (\<forall>i<n. \<forall>j<n. to_left i \<and> \<not> to_left j \<longrightarrow> rate i \<noteq> rate j)"
  proof
    assume "\<exists>cutoff. \<forall>i<n. to_left i \<longleftrightarrow> rate i < cutoff"
    then obtain c where c: "\<forall>i<n. to_left i \<longleftrightarrow> rate i < c" by blast
    show "\<forall>i<n. \<forall>j<n. to_left i \<and> \<not> to_left j \<longrightarrow> rate i \<noteq> rate j"
    proof (intro allI impI)
      fix i j assume "i < n" "j < n" "to_left i \<and> \<not> to_left j"
      then have "rate i < c" "\<not> rate j < c" using c by auto
      then show "rate i \<noteq> rate j" by auto
    qed
  next
    assume nt: "\<forall>i<n. \<forall>j<n. to_left i \<and> \<not> to_left j \<longrightarrow> rate i \<noteq> rate j"
    let ?R = "{j. j < n \<and> \<not> to_left j}"
    have fin: "finite (rate ` ?R)" by simp
    show "\<exists>cutoff. \<forall>i<n. to_left i \<longleftrightarrow> rate i < cutoff"
    proof (cases "?R = {}")
      case True
      let ?c = "Max (insert 0 (rate ` {i. i < n})) + 1"
      have "to_left i \<longleftrightarrow> rate i < ?c" if "i < n" for i
      proof -
        have "rate i \<le> Max (insert 0 (rate ` {i. i < n}))"
          using that by (intro Max_ge) auto
        then have "rate i < ?c" by simp
        moreover have "to_left i" using True that by auto
        ultimately show ?thesis by simp
      qed
      then show ?thesis by blast
    next
      case False
      let ?c = "Min (rate ` ?R)"
      have ne: "rate ` ?R \<noteq> {}" using False by simp
      have "to_left i \<longleftrightarrow> rate i < ?c" if i: "i < n" for i
      proof (cases "to_left i")
        case True
        have "\<forall>a\<in>rate ` ?R. rate i < a"
        proof
          fix a assume "a \<in> rate ` ?R"
          then obtain j where j: "j < n" "\<not> to_left j" "a = rate j" by auto
          have "rate i \<le> rate j" using mono i j True by blast
          moreover have "rate i \<noteq> rate j" using nt i j True by blast
          ultimately show "rate i < a" using j(3) by simp
        qed
        then have "rate i < ?c" using fin ne by (simp add: Min_gr_iff)
        then show ?thesis using True by simp
      next
        case gf: False
        then have "rate i \<in> rate ` ?R" using i by auto
        then have "?c \<le> rate i" using fin by (intro Min_le)
        then show ?thesis using gf by auto
      qed
      then show ?thesis by blast
    qed
  qed
qed

theorem categorical_split_follows_rate_witness:
  "encode (categories_map_of [1, 2, 1, 3 :: rat] [0, 1, 1, 1]) [1, 2, 1, 3] = [0, 1, 0, 2] \<and>
   positive_rate [1, 2, 1, 3 :: rat] [0, 1, 1, 1] ([1, 2, 1, 3] ! 0)
     \<le> positive_rate [1, 2, 1, 3 :: rat] [0, 1, 1, 1] ([1, 2, 1, 3] ! 1) \<and>
   [1, 2, 1, 3 :: rat] ! 0
     \<in> set (map fst (filter (\<lambda>p. rat_of_nat (snd p) < 1 / 2)
                 (categories_map_of [1, 2, 1, 3 :: rat] [0, 1, 1, 1])))"
proof -
  have e: "encode (categories_map_of [1, 2, 1, 3 :: rat] [0, 1, 1, 1]) [1, 2, 1, 3] = [0, 1, 0, 2]"
    by code_simp
  note t = categorical_split_follows_rate[of "[1, 2, 1, 3 :: rat]" "[0, 1, 1, 1]" "1 / 2"]
  have l: "(0::nat) < length [1, 2, 1, 3 :: rat]" "(1::nat) < length [1, 2, 1, 3 :: rat]" by simp_all
  have a: "[0, 1, 0, 2 :: rat] ! 0 < 1 / 2" "\<not> [0, 1, 0, 2 :: rat] ! 1 < 1 / 2" by simp_all
  have 1: "positive_rate [1, 2, 1, 3 :: rat] [0, 1, 1, 1] ([1, 2, 1, 3] ! 0)
     \<le> positive_rate [1, 2, 1, 3 :: rat] [0, 1, 1, 1] ([1, 2, 1, 3] ! 1)"
    using t l a unfolding e by blast
  have 2: "[1, 2, 1, 3 :: rat] ! 0
     \<in> set (map fst (filter (\<lambda>p. rat_of_nat (snd p) < 1 / 2)
                 (categories_map_of [1, 2, 1, 3 :: rat] [0, 1, 1, 1])))"
    using t l(1) a(1) unfolding e by blast
  show ?thesis using e 1 2 by blast
qed

subsection \<open>C8: prediction on the training set\<close>

text \<open>
  The leaves of a tree are pure for a training set when any two training samples that
  reach the same leaf have the same label.
\<close>

definition leaves_pure :: "DecisionTree \<Rightarrow> node \<Rightarrow> rat list list \<Rightarrow> int list \<Rightarrow> bool" where
  "leaves_pure self node X y =
     list_all (\<lambda>(x, c). list_all (\<lambda>(x', c').
         leaf_path self x node = leaf_path self x' node \<longrightarrow> c = c') (zip X y)) (zip X y)"

text \<open>
  C8. Let \<^verbatim>\<open>fit\<close> succeed on a training set (a matrix, all rows of one length, with as
  many labels as rows) and let every leaf of the fitted tree be pure for the training set.
  Then \<^verbatim>\<open>predict\<close> on the same matrix returns exactly the training labels, one per row, in
  the order of the rows.
\<close>

theorem predict_reproduces_training_labels:
  assumes "fit self X y = Inr self'"
    and "length X = length y"
    and "\<forall>row\<in>set X. length row = d"
    and "tree self' = Some node"
    and "leaves_pure self' node X y"
  shows "predict self' X = Inr y"
proof -
  from assms(1) obtain t s where
    f: "fit_node self X y = Inr (t, s)" and s': "self' = s\<lparr>tree := Some t\<rparr>"
    by (auto simp: fit_def split: sum.splits)
  have t: "node = t" using assms(4) s' by simp
  have "s = self\<lparr>depth := depth s\<rparr>" by (rule fit_node_changes_depth_only[OF f])
  then have "feature_types s = feature_types self"
    by (metis DecisionTree.select_convs(2) DecisionTree.surjective DecisionTree.update_convs(6))
  then have ft: "feature_types self' = feature_types self" using s' by simp
  note r = fit_node_routes[OF f assms(2,3) ft]
  have "\<forall>(x, c)\<in>set (zip X y). predict_node self' x t = Inr c"
  proof (intro ballI, clarify)
    fix x c assume xc: "(x, c) \<in> set (zip X y)"
    from r[rule_format, OF xc] obtain x' c' where
      m: "(x', c') \<in> set (zip X y)" and
      p: "leaf_path self' x' t = leaf_path self' x t" "predict_node self' x t = Inr c'"
      by auto
    have "leaf_path self' x t = leaf_path self' x' t \<longrightarrow> c = c'"
      using assms(5) xc m unfolding leaves_pure_def t list_all_iff by fastforce
    then show "predict_node self' x t = Inr c" using p by simp
  qed
  from predict_rows_all[OF assms(2) this] show ?thesis
    using assms(4) t by (simp add: predict_def)
qed

theorem predict_reproduces_training_labels_witness:
  "fit model_real [[1], [2], [2], [3]] [0, 1, 1, 1]
     = Inr (model_real\<lparr>tree := Some (Nonterminal 0 (Threshold (3 / 2)) (Terminal 0) (Terminal 1)),
                      depth := 1\<rparr>) \<and>
   predict (model_real\<lparr>tree := Some (Nonterminal 0 (Threshold (3 / 2)) (Terminal 0) (Terminal 1)),
                      depth := 1\<rparr>) [[1], [2], [2], [3]] = Inr [0, 1, 1, 1]"
proof -
  let ?m = "model_real\<lparr>tree := Some (Nonterminal 0 (Threshold (3 / 2)) (Terminal 0) (Terminal 1)),
                      depth := 1\<rparr>"
  have 1: "fit model_real [[1], [2], [2], [3]] [0, 1, 1, 1] = Inr ?m"
    by code_simp
  have 2: "length [[1], [2], [2], [3 :: rat]] = length [0, 1, 1, 1 :: int]" by simp
  have 3: "\<forall>row\<in>set [[1], [2], [2], [3 :: rat]]. length row = 1" by simp
  have 4: "tree ?m = Some (Nonterminal 0 (Threshold (3 / 2)) (Terminal 0) (Terminal 1))"
    by simp
  have 5: "leaves_pure ?m (Nonterminal 0 (Threshold (3 / 2)) (Terminal 0) (Terminal 1))
             [[1], [2], [2], [3]] [0, 1, 1, 1]"
    by code_simp
  from predict_reproduces_training_labels[OF 1 2 3 4 5] 1 show ?thesis by simp
qed

end
